theory Spec2Isabelle
  imports Main "HOL-Library.Sublist"
begin

section \<open>Strings of the host language\<close>

text \<open>
  A NuclideUri is a plain string.  Strings are modelled as lists of characters; the
  string methods the library calls (\<open>startsWith\<close>, \<open>endsWith\<close>, \<open>indexOf\<close>,
  \<open>charAt\<close>, \<open>split\<close>, \<open>replace\<close>, \<open>join\<close>) are written out below with the
  behaviour they have on string arguments.
\<close>

definition BACKSLASH :: char where
  "BACKSLASH = CHR 0x5C"

definition startsWith :: "string \<Rightarrow> string \<Rightarrow> bool" where
  "startsWith s p = prefix p s"

definition endsWith :: "string \<Rightarrow> string \<Rightarrow> bool" where
  "endsWith s p = suffix p s"

text \<open>The offset of the first occurrence of \<open>pat\<close> in \<open>s\<close>, if there is one.\<close>

fun firstIndex :: "string \<Rightarrow> string \<Rightarrow> nat option" where
  "firstIndex pat [] = (if pat = [] then Some 0 else None)"
| "firstIndex pat (c # cs) =
     (if prefix pat (c # cs) then Some 0 else map_option Suc (firstIndex pat cs))"

text \<open>
  \<open>s.indexOf(pat, pos)\<close>: the position is clamped to \<open>[0, length s]\<close>, the search
  starts there, and the result is \<open>-1\<close> when there is no occurrence.
\<close>

definition indexOf :: "string \<Rightarrow> string \<Rightarrow> int \<Rightarrow> int" where
  "indexOf s pat pos =
     (let start = nat (max 0 (min pos (int (length s))))
      in case firstIndex pat (drop start s) of
           None \<Rightarrow> - 1
         | Some k \<Rightarrow> int (start + k))"

text \<open>\<open>s.charAt(i)\<close> and \<open>s[i]\<close>: a one-character string, or nothing out of range.\<close>

definition charAt :: "string \<Rightarrow> int \<Rightarrow> string" where
  "charAt s i = (if 0 \<le> i \<and> i < int (length s) then [s ! nat i] else [])"

text \<open>\<open>s.split(d)\<close> for a one-character separator; the empty string gives one empty piece.\<close>

fun split_on :: "char \<Rightarrow> string \<Rightarrow> string list" where
  "split_on d [] = [[]]"
| "split_on d (c # cs) =
     (if c = d then [] # split_on d cs
      else (c # hd (split_on d cs)) # tl (split_on d cs))"

text \<open>\<open>xs.join(d)\<close> for a one-character separator.\<close>

fun join_with :: "char \<Rightarrow> string list \<Rightarrow> string" where
  "join_with d [] = []"
| "join_with d [x] = x"
| "join_with d (x # y # ys) = x @ d # join_with d (y # ys)"

text \<open>
  \<open>s.replace(pat, rep)\<close> with a string pattern: only the first occurrence is replaced.
  (The replacement strings used by the library contain no dollar sign, so they are
  inserted literally.)
\<close>

fun replace :: "string \<Rightarrow> string \<Rightarrow> string \<Rightarrow> string" where
  "replace [] pat rep = (if pat = [] then rep else [])"
| "replace (c # cs) pat rep =
     (if prefix pat (c # cs) then rep @ drop (length pat) (c # cs)
      else c # replace cs pat rep)"

section \<open>Path dialects\<close>

text \<open>
  The library picks one of the two path modules of the runtime, \<open>pathModule.posix\<close> or
  \<open>pathModule.win32\<close>.  Their constants \<open>sep\<close> and \<open>delimiter\<close> are fixed; their
  functions are not part of the library and are passed to the operations below as
  arguments indexed by the dialect.
\<close>

datatype dialect = Posix | Win32

fun sep :: "dialect \<Rightarrow> char" where
  "sep Posix = CHR ''/''"
| "sep Win32 = CHR 0x5C"

fun delimiter :: "dialect \<Rightarrow> char" where
  "delimiter Posix = CHR '':''"
| "delimiter Win32 = CHR '';''"

section \<open>The library\<close>

datatype error =
    IllegalAtomUri
  | IllegalArchiveSuffix
  | PathModuleArchiveSuffix
  | NoHostnameOrPath
  | NoHostname
  | ParseArchiveSuffix
  | NotLocalOrRemote
  | ExpectedRemote
  | MissingHostname
  | MissingPath
  | CrossHost
  | NonArchiveJoin
  | MissingHome
  | SplitRemote
  | JoinRemote
  | LocalPrefixRemote
  | LocalPrefixAbsolute

definition ARCHIVE_SEPARATOR :: char where
  "ARCHIVE_SEPARATOR = CHR ''!''"

definition KNOWN_ARCHIVE_EXTENSIONS :: "string list" where
  "KNOWN_ARCHIVE_EXTENSIONS = [''.jar'', ''.zip'']"

definition REMOTE_PATH_URI_PREFIX :: string where
  "REMOTE_PATH_URI_PREFIX = ''nuclide://''"

definition isRemote :: "string \<Rightarrow> bool" where
  "isRemote uri = startsWith uri REMOTE_PATH_URI_PREFIX"

definition isAtomUri :: "string \<Rightarrow> bool" where
  "isAtomUri uri = startsWith uri ''atom://''"

text \<open>\<open>_isArchiveSeparator(path, index)\<close>.\<close>

definition isArchiveSeparator :: "string \<Rightarrow> int \<Rightarrow> bool" where
  "isArchiveSeparator path index \<longleftrightarrow>
     int (length path) > index \<and>
     charAt path index = [ARCHIVE_SEPARATOR] \<and>
     list_ex (\<lambda>ext. let extStart = index - int (length ext)
                     in indexOf path ext extStart = extStart)
       KNOWN_ARCHIVE_EXTENSIONS"

text \<open>\<open>_endsWithArchiveSeparator(path)\<close>.\<close>

definition endsWithArchiveSeparator :: "string \<Rightarrow> bool" where
  "endsWithArchiveSeparator path = isArchiveSeparator path (int (length path) - 1)"

text \<open>\<open>_trimArchiveSuffix(path)\<close>.\<close>

definition trimArchiveSuffix :: "string \<Rightarrow> string" where
  "trimArchiveSuffix path =
     (if endsWithArchiveSeparator path then take (length path - 1) path else path)"

text \<open>\<open>_archiveEncode(uriPathModule, uri)\<close>.\<close>

definition archiveEncode :: "dialect \<Rightarrow> string \<Rightarrow> string" where
  "archiveEncode d uri =
     (if indexOf uri [ARCHIVE_SEPARATOR] 0 < 0 then uri
      else foldl (\<lambda>acc ext. replace acc (ext @ [ARCHIVE_SEPARATOR])
                               (ext @ [ARCHIVE_SEPARATOR] @ [sep d]))
             uri KNOWN_ARCHIVE_EXTENSIONS)"

text \<open>\<open>_archiveDecode(uriPathModule, uri)\<close>.\<close>

definition archiveDecode :: "dialect \<Rightarrow> string \<Rightarrow> string" where
  "archiveDecode d uri =
     (if indexOf uri [ARCHIVE_SEPARATOR] 0 < 0 then uri
      else trimArchiveSuffix
             (foldl (\<lambda>acc ext. replace acc (ext @ [ARCHIVE_SEPARATOR] @ [sep d])
                                  (ext @ [ARCHIVE_SEPARATOR]))
                uri KNOWN_ARCHIVE_EXTENSIONS))"

text \<open>\<open>_matchTrailingArchive(uri, other)\<close>.\<close>

definition matchTrailingArchive :: "string \<Rightarrow> string \<Rightarrow> string" where
  "matchTrailingArchive uri other =
     (if length uri < length other \<and> startsWith other uri \<and>
         isArchiveSeparator other (int (length uri))
      then uri @ [ARCHIVE_SEPARATOR] else uri)"

text \<open>Sequencing of calls that may throw: the first error is the result.\<close>

definition andThen :: "error + 'a \<Rightarrow> ('a \<Rightarrow> error + 'b) \<Rightarrow> error + 'b" where
  "andThen m f = (case m of Inl e \<Rightarrow> Inl e | Inr x \<Rightarrow> f x)"

text \<open>\<open>_testForIllegalUri(uri)\<close>.\<close>

definition testForIllegalUri :: "string \<Rightarrow> error + unit" where
  "testForIllegalUri uri =
     (if isAtomUri uri then Inl IllegalAtomUri
      else if endsWithArchiveSeparator uri then Inl IllegalArchiveSuffix
      else Inr ())"

text \<open>\<open>_pathModuleFor(uri)\<close>.\<close>

definition pathModuleFor :: "string \<Rightarrow> error + dialect" where
  "pathModuleFor uri =
     (if endsWithArchiveSeparator uri then Inl PathModuleArchiveSuffix
      else if startsWith uri [sep Posix] then Inr Posix
      else if indexOf uri ''://'' 0 > - 1 then Inr Posix
      else if charAt uri 1 = '':'' \<and> charAt uri 2 = [sep Win32] then Inr Win32
      else if length (split_on (sep Win32) uri) > length (split_on (sep Posix) uri)
           then Inr Win32
      else Inr Posix)"

record parsedUrl =
  hostname :: "string option"
  path :: string

text \<open>\<open>parse(uri)\<close>.\<close>

definition parse :: "string \<Rightarrow> error + parsedUrl" where
  "parse uri =
     (if startsWith uri REMOTE_PATH_URI_PREFIX then
        (let hostAndPath = drop (length REMOTE_PATH_URI_PREFIX) uri;
             hostSep = indexOf hostAndPath ''/'' 0
         in if hostSep = - 1 then Inl NoHostnameOrPath
            else let h = take (nat hostSep) hostAndPath
                 in if h = [] then Inl NoHostname
                    else let p = drop (nat hostSep) hostAndPath
                         in if endsWithArchiveSeparator uri then Inl ParseArchiveSuffix
                            else Inr \<lparr>hostname = Some h, path = p\<rparr>)
      else if indexOf uri ''://'' 0 \<noteq> - 1 then Inl NotLocalOrRemote
      else if endsWithArchiveSeparator uri then Inl ParseArchiveSuffix
      else Inr \<lparr>hostname = None, path = uri\<rparr>)"

text \<open>\<open>parseRemoteUri(remoteUri)\<close>: the hostname and the path, as a pair.\<close>

definition parseRemoteUri :: "string \<Rightarrow> error + (string \<times> string)" where
  "parseRemoteUri remoteUri =
     (if \<not> isRemote remoteUri then Inl ExpectedRemote
      else andThen (parse remoteUri) (\<lambda>parsedUri.
             case hostname parsedUri of
               None \<Rightarrow> Inl MissingHostname
             | Some h \<Rightarrow> if h = [] then Inl MissingHostname
                         else Inr (h, path parsedUri)))"

definition getPath :: "string \<Rightarrow> error + string" where
  "getPath uri = andThen (parse uri) (\<lambda>parsedUri. Inr (path parsedUri))"

definition getHostname :: "string \<Rightarrow> error + string" where
  "getHostname remoteUri = andThen (parseRemoteUri remoteUri) (\<lambda>(h, p). Inr h)"

definition createRemoteUri :: "string \<Rightarrow> string \<Rightarrow> error + string" where
  "createRemoteUri h remotePath =
     (if remotePath = [] then Inl MissingPath
      else Inr (''nuclide://'' @ h @ remotePath))"

text \<open>
  \<open>join(uri, ...relativePath)\<close>.  The first argument \<open>njoin\<close> is the \<open>join\<close> of the
  runtime's path modules; likewise for the other operations that delegate to the runtime.
\<close>

definition join ::
  "(dialect \<Rightarrow> string list \<Rightarrow> string) \<Rightarrow> string \<Rightarrow> string list \<Rightarrow> error + string" where
  "join njoin uri relativePath =
     andThen (testForIllegalUri uri) (\<lambda>_.
     andThen (pathModuleFor uri) (\<lambda>uriPathModule.
       if isRemote uri then
         andThen (parseRemoteUri uri) (\<lambda>(h, p).
         andThen (createRemoteUri h
                    (njoin uriPathModule
                       (map (archiveEncode uriPathModule) (p # relativePath)))) (\<lambda>u.
           Inr (archiveDecode uriPathModule u)))
       else
         Inr (archiveDecode uriPathModule
                (njoin uriPathModule
                   (map (archiveEncode uriPathModule) (uri # relativePath))))))"

definition hasKnownArchiveExtension :: "string \<Rightarrow> bool" where
  "hasKnownArchiveExtension uri = list_ex (\<lambda>ext. endsWith uri ext) KNOWN_ARCHIVE_EXTENSIONS"

definition archiveJoin :: "string \<Rightarrow> string \<Rightarrow> error + string" where
  "archiveJoin uri p =
     andThen (testForIllegalUri uri) (\<lambda>_.
       if \<not> list_ex (\<lambda>ext. endsWith uri ext) KNOWN_ARCHIVE_EXTENSIONS
       then Inl NonArchiveJoin
       else Inr (uri @ [ARCHIVE_SEPARATOR] @ p))"

definition normalize ::
  "(dialect \<Rightarrow> string \<Rightarrow> string) \<Rightarrow> string \<Rightarrow> error + string" where
  "normalize nnormalize uri =
     andThen (testForIllegalUri uri) (\<lambda>_.
     andThen (pathModuleFor uri) (\<lambda>uriPathModule.
       if isRemote uri then
         andThen (parseRemoteUri uri) (\<lambda>(h, p).
           createRemoteUri h
             (archiveDecode uriPathModule
                (nnormalize uriPathModule (archiveEncode uriPathModule p))))
       else
         Inr (archiveDecode uriPathModule
                (nnormalize uriPathModule (archiveEncode uriPathModule uri)))))"

definition ensureTrailingSeparator :: "string \<Rightarrow> error + string" where
  "ensureTrailingSeparator uri =
     andThen (testForIllegalUri uri) (\<lambda>_.
     andThen (pathModuleFor uri) (\<lambda>uriPathModule.
       if endsWith uri [sep uriPathModule] then Inr uri
       else Inr (uri @ [sep uriPathModule])))"

definition normalizeDir ::
  "(dialect \<Rightarrow> string \<Rightarrow> string) \<Rightarrow> string \<Rightarrow> error + string" where
  "normalizeDir nnormalize uri = andThen (normalize nnormalize uri) ensureTrailingSeparator"

definition getParent ::
  "(dialect \<Rightarrow> string list \<Rightarrow> string) \<Rightarrow> (dialect \<Rightarrow> string \<Rightarrow> string) \<Rightarrow>
   string \<Rightarrow> error + string" where
  "getParent njoin nnormalize uri = andThen (join njoin uri [''..'']) (normalize nnormalize)"

definition relative ::
  "(dialect \<Rightarrow> string \<Rightarrow> string \<Rightarrow> string) \<Rightarrow> string \<Rightarrow> string \<Rightarrow> error + string" where
  "relative nrelative uri other =
     andThen (testForIllegalUri uri) (\<lambda>_.
     andThen (pathModuleFor uri) (\<lambda>uriPathModule.
     let remote = isRemote uri in
     andThen (if remote \<noteq> isRemote other then Inr True
              else if remote then
                andThen (getHostname uri) (\<lambda>h1.
                andThen (getHostname other) (\<lambda>h2. Inr (h1 \<noteq> h2)))
              else Inr False) (\<lambda>differentHosts.
       if differentHosts then Inl CrossHost
       else
         andThen (if remote then getPath uri else Inr uri) (\<lambda>uriPath.
         andThen (if remote then getPath other else Inr other) (\<lambda>otherPath.
         let uriEncode = archiveEncode uriPathModule uriPath;
             otherEncode = archiveEncode uriPathModule otherPath
         in Inr (archiveDecode uriPathModule
                   (nrelative uriPathModule
                      (matchTrailingArchive uriEncode otherEncode)
                      (matchTrailingArchive otherEncode uriEncode))))))))"

definition basename ::
  "(dialect \<Rightarrow> string \<Rightarrow> string \<Rightarrow> string) \<Rightarrow> string \<Rightarrow> string \<Rightarrow> error + string" where
  "basename nbasename uri ext =
     andThen (testForIllegalUri uri) (\<lambda>_.
     andThen (pathModuleFor uri) (\<lambda>uriPathModule.
     andThen (getPath uri) (\<lambda>p.
       Inr (archiveDecode uriPathModule
              (nbasename uriPathModule (archiveEncode uriPathModule p) ext)))))"

definition dirname ::
  "(dialect \<Rightarrow> string \<Rightarrow> string) \<Rightarrow> string \<Rightarrow> error + string" where
  "dirname ndirname uri =
     andThen (testForIllegalUri uri) (\<lambda>_.
     andThen (pathModuleFor uri) (\<lambda>uriPathModule.
       if isRemote uri then
         andThen (parseRemoteUri uri) (\<lambda>(h, p).
           createRemoteUri h
             (archiveDecode uriPathModule
                (ndirname uriPathModule (archiveEncode uriPathModule p))))
       else
         Inr (archiveDecode uriPathModule
                (ndirname uriPathModule (archiveEncode uriPathModule uri)))))"

definition extname ::
  "(dialect \<Rightarrow> string \<Rightarrow> string) \<Rightarrow> string \<Rightarrow> error + string" where
  "extname nextname uri =
     andThen (testForIllegalUri uri) (\<lambda>_.
     andThen (pathModuleFor uri) (\<lambda>uriPathModule.
     andThen (getPath uri) (\<lambda>p.
       Inr (archiveDecode uriPathModule
              (nextname uriPathModule (archiveEncode uriPathModule p))))))"

definition stripExtension ::
  "(dialect \<Rightarrow> string \<Rightarrow> string) \<Rightarrow> string \<Rightarrow> error + string" where
  "stripExtension nextname uri =
     andThen (testForIllegalUri uri) (\<lambda>_.
     andThen (extname nextname uri) (\<lambda>ext.
       if length ext = 0 then Inr uri
       else Inr (take (length uri - length ext) uri)))"

definition nuclideUriToUri :: "string \<Rightarrow> error + string" where
  "nuclideUriToUri uri =
     andThen (testForIllegalUri uri) (\<lambda>_.
       if isRemote uri then Inr uri else Inr (''file://'' @ uri))"

definition endsWithSeparator :: "string \<Rightarrow> error + bool" where
  "endsWithSeparator uri =
     andThen (testForIllegalUri uri) (\<lambda>_.
     andThen (pathModuleFor uri) (\<lambda>uriPathModule.
       Inr (endsWith uri [sep uriPathModule])))"

text \<open>
  \<open>contains(parent, child)\<close>.  The operators \<open>&&\<close> and \<open>||\<close> evaluate their right
  operand only when needed, so \<open>endsWithSeparator\<close> is called only after the
  \<open>startsWith\<close> test has succeeded.
\<close>

definition contains :: "string \<Rightarrow> string \<Rightarrow> error + bool" where
  "contains parent child =
     andThen (testForIllegalUri parent) (\<lambda>_.
     andThen (testForIllegalUri child) (\<lambda>_.
       if length child < length parent then
         (if int (length child) < int (length parent) - 1 then Inr False
          else if \<not> startsWith parent child then Inr False
          else andThen (endsWithSeparator parent) (\<lambda>b.
                 Inr (b \<or> isArchiveSeparator child (int (length parent)))))
       else if \<not> startsWith child parent then Inr False
       else
         andThen (endsWithSeparator parent) (\<lambda>b.
           if b \<or> length parent = length child then Inr True
           else
             andThen (pathModuleFor child) (\<lambda>uriPathModule.
               Inr (isArchiveSeparator child (int (length parent)) \<or>
                    startsWith (drop (length parent) child) [sep uriPathModule])))))"

definition isAbsolute ::
  "(dialect \<Rightarrow> string \<Rightarrow> bool) \<Rightarrow> string \<Rightarrow> error + bool" where
  "isAbsolute nisAbsolute uri =
     andThen (testForIllegalUri uri) (\<lambda>_.
       if isRemote uri then Inr True
       else andThen (pathModuleFor uri) (\<lambda>uriPathModule.
              Inr (nisAbsolute uriPathModule uri)))"

definition resolve ::
  "(dialect \<Rightarrow> string list \<Rightarrow> string) \<Rightarrow> string \<Rightarrow> string list \<Rightarrow> error + string" where
  "resolve nresolve uri paths =
     andThen (testForIllegalUri uri) (\<lambda>_.
     andThen (pathModuleFor uri) (\<lambda>uriPathModule.
       if isRemote uri then
         andThen (parseRemoteUri uri) (\<lambda>(h, p).
           createRemoteUri h
             (archiveDecode uriPathModule
                (nresolve uriPathModule
                   (map (archiveEncode uriPathModule) (p # paths)))))
       else
         Inr (archiveDecode uriPathModule
                (nresolve uriPathModule
                   (map (archiveEncode uriPathModule) (uri # paths))))))"

text \<open>
  The process environment read by \<open>expandHomeDir\<close>: the two home variables (absent when
  unset) and the platform name returned by \<open>os.platform()\<close>.
\<close>

record environment =
  HOME :: "string option"
  UserProfile :: "string option"
  platform :: string

text \<open>The default path module of the runtime is the one of the platform.\<close>

definition hostPathModule :: "environment \<Rightarrow> dialect" where
  "hostPathModule env = (if platform env = ''win32'' then Win32 else Posix)"

definition expandHomeDir ::
  "(dialect \<Rightarrow> string list \<Rightarrow> string) \<Rightarrow> environment \<Rightarrow> string \<Rightarrow> error + string" where
  "expandHomeDir nresolve env uri =
     andThen (testForIllegalUri uri) (\<lambda>_.
       if \<not> startsWith uri ''~'' then Inr uri
       else
         let isWindows = (\<not> isRemote uri \<and> platform env = ''win32'');
             homePath = (if isWindows then UserProfile env else HOME env)
         in case homePath of
              None \<Rightarrow> Inl MissingHome
            | Some home \<Rightarrow>
                if uri = ''~'' then Inr home
                else if \<not> startsWith uri ''~/'' \<and>
                        (\<not> isWindows \<or> \<not> startsWith uri [CHR ''~'', BACKSLASH])
                     then Inr uri
                else Inr (nresolve (hostPathModule env) [home, replace uri ''~'' ''.'']))"

definition splitPathList :: "string \<Rightarrow> error + string list" where
  "splitPathList paths =
     (if \<not> indexOf paths REMOTE_PATH_URI_PREFIX 0 < 0 then Inl SplitRemote
      else andThen (pathModuleFor paths) (\<lambda>uriPathModule.
             Inr (split_on (delimiter uriPathModule) paths)))"

definition joinPathList :: "string list \<Rightarrow> error + string" where
  "joinPathList paths =
     (if length paths = 0 then Inr []
      else if \<not> list_all (\<lambda>p. \<not> isRemote p) paths then Inl JoinRemote
      else andThen (pathModuleFor (hd paths)) (\<lambda>uriPathModule.
             Inr (join_with (delimiter uriPathModule) paths)))"

definition ensureLocalPrefix ::
  "(dialect \<Rightarrow> string \<Rightarrow> bool) \<Rightarrow> string \<Rightarrow> error + string" where
  "ensureLocalPrefix nisAbsolute uri =
     andThen (testForIllegalUri uri) (\<lambda>_.
     andThen (pathModuleFor uri) (\<lambda>uriPathModule.
       if isRemote uri then Inl LocalPrefixRemote
       else andThen (isAbsolute nisAbsolute uri) (\<lambda>absolute.
         if absolute then Inl LocalPrefixAbsolute
         else let localPrefix = [CHR ''.'', sep uriPathModule]
              in if startsWith uri localPrefix then Inr uri
                 else Inr (localPrefix @ uri))))"

definition isRoot ::
  "(dialect \<Rightarrow> string \<Rightarrow> string) \<Rightarrow> string \<Rightarrow> error + bool" where
  "isRoot ndirname uri =
     andThen (testForIllegalUri uri) (\<lambda>_.
     andThen (dirname ndirname uri) (\<lambda>parent. Inr (parent = uri)))"

text \<open>\<open>isInArchive(uri)\<close>: some archive separator of \<open>uri\<close> passes the test.\<close>

definition isInArchive :: "string \<Rightarrow> bool" where
  "isInArchive uri =
     (if isAtomUri uri \<or> indexOf uri [ARCHIVE_SEPARATOR] 0 < 0 then False
      else list_ex (\<lambda>i. isArchiveSeparator uri (int i))
             (filter (\<lambda>i. uri ! i = ARCHIVE_SEPARATOR) [0..<length uri]))"

text \<open>The components returned by the \<open>parse\<close> of the runtime's path modules.\<close>

record parsedPath =
  pp_root :: string
  pp_dir :: string
  pp_base :: string
  pp_ext :: string
  pp_name :: string

definition parsePath ::
  "(dialect \<Rightarrow> string \<Rightarrow> parsedPath) \<Rightarrow> string \<Rightarrow> error + parsedPath" where
  "parsePath nparse uri =
     andThen (testForIllegalUri uri) (\<lambda>_.
     andThen (pathModuleFor uri) (\<lambda>uriPathModule.
       if \<not> isInArchive uri then
         andThen (getPath uri) (\<lambda>p. Inr (nparse uriPathModule p))
       else
         andThen (getPath uri) (\<lambda>p.
           let parsed = nparse uriPathModule (archiveEncode uriPathModule p)
           in Inr \<lparr>pp_root = archiveDecode uriPathModule (pp_root parsed),
                   pp_dir = archiveDecode uriPathModule (pp_dir parsed),
                   pp_base = archiveDecode uriPathModule (pp_base parsed),
                   pp_ext = archiveDecode uriPathModule (pp_ext parsed),
                   pp_name = archiveDecode uriPathModule (pp_name parsed)\<rparr>)))"

definition pathSeparatorFor :: "string \<Rightarrow> error + string" where
  "pathSeparatorFor uri = andThen (pathModuleFor uri) (\<lambda>uriPathModule. Inr [sep uriPathModule])"

text \<open>
  \<open>nuclideUriToDisplayString(uri)\<close>.  The registered hostname formatters are passed as a
  list, in registration order; a formatter returns nothing or a string, and the first
  non-empty string is taken.
\<close>

fun formatHostname :: "(string \<Rightarrow> string option) list \<Rightarrow> string \<Rightarrow> string" where
  "formatHostname [] h = h"
| "formatHostname (formatter # formatters) h =
     (case formatter h of
        None \<Rightarrow> formatHostname formatters h
      | Some formattedHostname \<Rightarrow>
          if formattedHostname \<noteq> [] then formattedHostname
          else formatHostname formatters h)"

definition nuclideUriToDisplayString ::
  "(string \<Rightarrow> string option) list \<Rightarrow> string \<Rightarrow> error + string" where
  "nuclideUriToDisplayString hostFormatters uri =
     andThen (testForIllegalUri uri) (\<lambda>_.
       if isRemote uri then
         andThen (getHostname uri) (\<lambda>h.
         andThen (getPath uri) (\<lambda>p.
           Inr (formatHostname hostFormatters h @ '':'' @ p)))
       else Inr uri)"

text \<open>
  \<open>trimTrailingSeparator(uri)\<close>.  Each turn of the loop removes the last character, so
  the loop ends.
\<close>

function trimLoop ::
  "(dialect \<Rightarrow> string \<Rightarrow> string) \<Rightarrow> dialect \<Rightarrow> string \<Rightarrow> error + string" where
  "trimLoop ndirname d stripped =
     (if endsWith stripped [sep d] then
        (case isRoot ndirname stripped of
           Inl e \<Rightarrow> Inl e
         | Inr root \<Rightarrow>
             if root then Inr stripped
             else trimLoop ndirname d (take (length stripped - 1) stripped))
      else Inr stripped)"
  by pat_completeness auto
termination
  by (relation "measure (\<lambda>(ndirname, d, stripped). length stripped)")
     (auto simp: endsWith_def suffix_def)

definition trimTrailingSeparator ::
  "(dialect \<Rightarrow> string \<Rightarrow> string) \<Rightarrow> string \<Rightarrow> error + string" where
  "trimTrailingSeparator ndirname uri =
     andThen (testForIllegalUri uri) (\<lambda>_.
     andThen (pathModuleFor uri) (\<lambda>uriPathModule.
       trimLoop ndirname uriPathModule uri))"

text \<open>
  \<open>split(uri)\<close>.  The loop runs until \<open>dirname\<close> returns its argument; with an arbitrary
  native \<open>dirname\<close> it need not end, and then there is no result.
\<close>

partial_function (option) splitLoop ::
  "(dialect \<Rightarrow> string \<Rightarrow> string) \<Rightarrow> (dialect \<Rightarrow> string \<Rightarrow> string \<Rightarrow> string) \<Rightarrow>
   string \<Rightarrow> string \<Rightarrow> string list \<Rightarrow> (error + string list \<times> string) option" where
  "splitLoop ndirname nbasename current parent parts =
     (if current = parent then Some (Inr (parts, parent))
      else case basename nbasename current [] of
             Inl e \<Rightarrow> Some (Inl e)
           | Inr b \<Rightarrow>
               (case dirname ndirname parent of
                  Inl e \<Rightarrow> Some (Inl e)
                | Inr grandparent \<Rightarrow>
                    splitLoop ndirname nbasename parent grandparent (parts @ [b])))"

definition split ::
  "(dialect \<Rightarrow> string \<Rightarrow> string) \<Rightarrow> (dialect \<Rightarrow> string \<Rightarrow> string \<Rightarrow> string) \<Rightarrow>
   (dialect \<Rightarrow> string \<Rightarrow> bool) \<Rightarrow> string \<Rightarrow> (error + string list) option" where
  "split ndirname nbasename nisAbsolute uri =
     (case dirname ndirname uri of
        Inl e \<Rightarrow> Some (Inl e)
      | Inr parent \<Rightarrow>
          (case splitLoop ndirname nbasename uri parent [] of
             None \<Rightarrow> None
           | Some (Inl e) \<Rightarrow> Some (Inl e)
           | Some (Inr (parts, root)) \<Rightarrow>
               (case isAbsolute nisAbsolute uri of
                  Inl e \<Rightarrow> Some (Inl e)
                | Inr absolute \<Rightarrow>
                    Some (Inr (rev (if absolute then parts @ [root] else parts))))))"

text \<open>
  \<open>collapse(paths)\<close>.  \<open>someContains paths p\<close> is \<open>paths.some(fp => contains(fp, p) && fp !== p)\<close>,
  which stops at the first element that qualifies or throws.
\<close>

fun someContains :: "string list \<Rightarrow> string \<Rightarrow> error + bool" where
  "someContains [] p = Inr False"
| "someContains (fp # fps) p =
     (case contains fp p of
        Inl e \<Rightarrow> Inl e
      | Inr c \<Rightarrow> if c \<and> fp \<noteq> p then Inr True else someContains fps p)"

fun collapseFilter :: "string list \<Rightarrow> string list \<Rightarrow> error + string list" where
  "collapseFilter paths [] = Inr []"
| "collapseFilter paths (p # ps) =
     (case someContains paths p of
        Inl e \<Rightarrow> Inl e
      | Inr covered \<Rightarrow>
          (case collapseFilter paths ps of
             Inl e \<Rightarrow> Inl e
           | Inr rest \<Rightarrow> Inr (if covered then rest else p # rest)))"

definition collapse :: "string list \<Rightarrow> error + string list" where
  "collapse paths = collapseFilter paths paths"

section \<open>The path module of the runtime\<close>

text \<open>
  Modelled from the spec: the native \<open>normalize\<close> and \<open>join\<close> of the two dialects, to
  which the operations delegate.  They are functions of the path module of the runtime
  (Node.js), which is imported by the library and is not among its sources.  The
  definitions follow that module: \<open>normalizeString\<close> is its loop over the characters of
  the path, with the loop variables in a record, and \<open>normalize\<close> and \<open>join\<close> of each
  dialect are built on it.  They are used to run the library on concrete inputs; the
  general statements below take the native functions as arguments.
\<close>

definition isPosixPathSeparator :: "char \<Rightarrow> bool" where
  "isPosixPathSeparator c \<longleftrightarrow> c = CHR ''/''"

definition isPathSeparator :: "char \<Rightarrow> bool" where
  "isPathSeparator c \<longleftrightarrow> c = CHR ''/'' \<or> c = BACKSLASH"

definition isWindowsDeviceRoot :: "char \<Rightarrow> bool" where
  "isWindowsDeviceRoot c \<longleftrightarrow>
     (65 \<le> (of_char c :: nat) \<and> (of_char c :: nat) \<le> 90) \<or>
     (97 \<le> (of_char c :: nat) \<and> (of_char c :: nat) \<le> 122)"

text \<open>\<open>s.lastIndexOf(c)\<close> for a character.\<close>

definition lastIndexOf :: "string \<Rightarrow> char \<Rightarrow> int" where
  "lastIndexOf s c =
     (case firstIndex [c] (rev s) of
        None \<Rightarrow> - 1
      | Some k \<Rightarrow> int (length s) - 1 - int k)"

text \<open>The variables of the loop of \<open>normalizeString\<close>.\<close>

record normalizeState =
  res :: string
  lastSegmentLength :: int
  lastSlash :: int
  dots :: int

text \<open>
  One round of the loop, at offset \<open>i\<close>.  At the offset after the last character the
  loop acts as if it read a separator.
\<close>

definition normalizeStep ::
  "string \<Rightarrow> bool \<Rightarrow> char \<Rightarrow> (char \<Rightarrow> bool) \<Rightarrow> normalizeState \<Rightarrow> nat \<Rightarrow> normalizeState" where
  "normalizeStep p allowAboveRoot separator isSep st i =
     (let code = (if i < length p then p ! i else CHR ''/'') in
      if isSep code then
        (if lastSlash st = int i - 1 \<or> dots st = 1 then
           st\<lparr>lastSlash := int i, dots := 0\<rparr>
         else if dots st = 2 then
           (let above =
                  (if allowAboveRoot then
                     st\<lparr>res := (if res st \<noteq> [] then res st @ separator # ''..'' else ''..''),
                        lastSegmentLength := 2, lastSlash := int i, dots := 0\<rparr>
                   else st\<lparr>lastSlash := int i, dots := 0\<rparr>)
            in
            if length (res st) < 2 \<or> lastSegmentLength st \<noteq> 2 \<or>
               res st ! (length (res st) - 1) \<noteq> CHR ''.'' \<or>
               res st ! (length (res st) - 2) \<noteq> CHR ''.''
            then
              (if length (res st) > 2 then
                 (let lastSlashIndex = lastIndexOf (res st) separator in
                  if lastSlashIndex = - 1 then
                    st\<lparr>res := [], lastSegmentLength := 0, lastSlash := int i, dots := 0\<rparr>
                  else
                    (let r = take (nat lastSlashIndex) (res st) in
                     st\<lparr>res := r,
                        lastSegmentLength := int (length r) - 1 - lastIndexOf r separator,
                        lastSlash := int i, dots := 0\<rparr>))
               else if length (res st) \<noteq> 0 then
                 st\<lparr>res := [], lastSegmentLength := 0, lastSlash := int i, dots := 0\<rparr>
               else above)
            else above)
         else
           (let seg = take (i - nat (lastSlash st + 1)) (drop (nat (lastSlash st + 1)) p) in
            st\<lparr>res := (if res st \<noteq> [] then res st @ separator # seg else seg),
               lastSegmentLength := int i - lastSlash st - 1,
               lastSlash := int i, dots := 0\<rparr>))
      else if code = CHR ''.'' \<and> dots st \<noteq> - 1 then st\<lparr>dots := dots st + 1\<rparr>
      else st\<lparr>dots := - 1\<rparr>)"

text \<open>
  The loop runs over every offset up to the length of the path, and stops before the last
  round when the last character is a separator.
\<close>

definition normalizeString :: "string \<Rightarrow> bool \<Rightarrow> char \<Rightarrow> (char \<Rightarrow> bool) \<Rightarrow> string" where
  "normalizeString p allowAboveRoot separator isSep =
     (let n = (if p \<noteq> [] \<and> isSep (last p) then length p else Suc (length p))
      in res (foldl (normalizeStep p allowAboveRoot separator isSep)
                \<lparr>res = [], lastSegmentLength = 0, lastSlash = - 1, dots = 0\<rparr>
                [0..<n]))"

definition posix_normalize :: "string \<Rightarrow> string" where
  "posix_normalize p =
     (if p = [] then ''.''
      else
        let absolute = (hd p = CHR ''/'');
            trailingSeparator = (last p = CHR ''/'');
            q = normalizeString p (\<not> absolute) (CHR ''/'') isPosixPathSeparator
        in if q = [] then
             (if absolute then ''/'' else if trailingSeparator then ''./'' else ''.'')
           else
             (let q' = (if trailingSeparator then q @ ''/'' else q)
              in if absolute then CHR ''/'' # q' else q'))"

definition posix_join :: "string list \<Rightarrow> string" where
  "posix_join args =
     (let parts = filter (\<lambda>a. a \<noteq> []) args
      in if parts = [] then ''.'' else posix_normalize (join_with (CHR ''/'') parts))"

text \<open>
  The first part of \<open>win32.normalize\<close>, which looks for a root: the result is either the
  value returned at once (a UNC root and nothing else), or the device, whether the path
  is absolute, and the offset where the rest starts.  The path has two characters or more.
\<close>

definition win32_root :: "string \<Rightarrow> string + (string option \<times> bool \<times> nat)" where
  "win32_root p =
     (let len = length p in
      if isPathSeparator (p ! 0) then
        (if isPathSeparator (p ! 1) then
           (let firstPart = takeWhile (\<lambda>c. \<not> isPathSeparator c) (drop 2 p);
                j = 2 + length firstPart
            in if j < len \<and> j \<noteq> 2 then
                 (let j2 = j + length (takeWhile isPathSeparator (drop j p))
                  in if j2 < len \<and> j2 \<noteq> j then
                       (let j3 = j2 + length (takeWhile (\<lambda>c. \<not> isPathSeparator c) (drop j2 p))
                        in if j3 = len then
                             Inl ([BACKSLASH, BACKSLASH] @ firstPart @ [BACKSLASH] @
                                  drop j2 p @ [BACKSLASH])
                           else if j3 \<noteq> j2 then
                             Inr (Some ([BACKSLASH, BACKSLASH] @ firstPart @ [BACKSLASH] @
                                        take (j3 - j2) (drop j2 p)), True, j3)
                           else Inr (None, True, 0))
                     else Inr (None, True, 0))
               else Inr (None, True, 0))
         else Inr (None, True, 1))
      else if isWindowsDeviceRoot (p ! 0) \<and> p ! 1 = CHR '':'' then
        (if len > 2 \<and> isPathSeparator (p ! 2) then Inr (Some (take 2 p), True, 3)
         else Inr (Some (take 2 p), False, 2))
      else Inr (None, False, 0))"

definition win32_normalize :: "string \<Rightarrow> string" where
  "win32_normalize p =
     (let len = length p in
      if len = 0 then ''.''
      else if len = 1 then (if isPosixPathSeparator (p ! 0) then [BACKSLASH] else p)
      else
        case win32_root p of
          Inl r \<Rightarrow> r
        | Inr (device, absolute, rootEnd) \<Rightarrow>
            let tail0 = (if rootEnd < len
                         then normalizeString (drop rootEnd p) (\<not> absolute) BACKSLASH
                                isPathSeparator
                         else []);
                tail1 = (if tail0 = [] \<and> \<not> absolute then ''.'' else tail0);
                tail2 = (if tail1 \<noteq> [] \<and> isPathSeparator (last p)
                         then tail1 @ [BACKSLASH] else tail1)
            in case device of
                 None \<Rightarrow> (if absolute then BACKSLASH # tail2 else tail2)
               | Some dev \<Rightarrow> (if absolute then dev @ BACKSLASH # tail2 else dev @ tail2))"

definition win32_join :: "string list \<Rightarrow> string" where
  "win32_join args =
     (let parts = filter (\<lambda>a. a \<noteq> []) args in
      if parts = [] then ''.''
      else
        let joined = join_with BACKSLASH parts;
            firstPart = hd parts;
            needsReplace =
              \<not> (isPathSeparator (firstPart ! 0) \<and> length firstPart > 2 \<and>
                 isPathSeparator (firstPart ! 1) \<and> \<not> isPathSeparator (firstPart ! 2));
            slashCount = length (takeWhile isPathSeparator joined)
        in win32_normalize
             (if needsReplace \<and> slashCount \<ge> 2 then BACKSLASH # drop slashCount joined
              else joined))"

fun node_normalize :: "dialect \<Rightarrow> string \<Rightarrow> string" where
  "node_normalize Posix = posix_normalize"
| "node_normalize Win32 = win32_normalize"

fun node_join :: "dialect \<Rightarrow> string list \<Rightarrow> string" where
  "node_join Posix = posix_join"
| "node_join Win32 = win32_join"

section \<open>Notions used in the statements\<close>

text \<open>
  The archive separator at offset \<open>i\<close> of \<open>s\<close> comes immediately after one of the
  recognised archive extensions.
\<close>

definition precededByExtension :: "string \<Rightarrow> nat \<Rightarrow> bool" where
  "precededByExtension s i =
     list_ex (\<lambda>ext. length ext \<le> i \<and> take (length ext) (drop (i - length ext) s) = ext)
       KNOWN_ARCHIVE_EXTENSIONS"

text \<open>
  Every archive separator of \<open>s\<close> comes immediately after a recognised extension and is
  not immediately followed by another archive separator.
\<close>

definition supportedNesting :: "string \<Rightarrow> bool" where
  "supportedNesting s =
     list_all (\<lambda>i. s ! i = ARCHIVE_SEPARATOR \<longrightarrow>
                 precededByExtension s i \<and>
                 \<not> (Suc i < length s \<and> s ! Suc i = ARCHIVE_SEPARATOR))
       [0..<length s]"

text \<open>The home variable of the platform: \<open>UserProfile\<close> on Windows, \<open>HOME\<close> elsewhere.\<close>

definition homeVariable :: "environment \<Rightarrow> string option" where
  "homeVariable env = (if platform env = ''win32'' then UserProfile env else HOME env)"

text \<open>
  The argument asks for the home directory: it is \<open>~\<close>, or it starts with \<open>~/\<close>, or
  on Windows with \<open>~\<close> and a backslash.
\<close>

definition expansionRequested :: "environment \<Rightarrow> string \<Rightarrow> bool" where
  "expansionRequested env uri \<longleftrightarrow>
     uri = ''~'' \<or> startsWith uri ''~/'' \<or>
     (platform env = ''win32'' \<and> startsWith uri [CHR ''~'', BACKSLASH])"

text \<open>
  The native \<open>join\<close> of dialect \<open>d\<close> puts \<open>x\<close> behind the path \<open>e\<close> as it is written,
  with one separator between them unless \<open>e\<close> ends with one.
\<close>

definition joinsPlainly ::
  "(dialect \<Rightarrow> string list \<Rightarrow> string) \<Rightarrow> dialect \<Rightarrow> string \<Rightarrow> bool" where
  "joinsPlainly njoin d e \<longleftrightarrow>
     njoin d [e, ''x''] = e @ (if endsWith e [sep d] then [] else [sep d]) @ ''x''"

text \<open>
  The hostname, if there is one, does not end with an archive extension and the archive
  separator.
\<close>

definition plainHostname :: "parsedUrl \<Rightarrow> bool" where
  "plainHostname ps =
     (case hostname ps of
        None \<Rightarrow> True
      | Some h \<Rightarrow>
          \<not> list_ex (\<lambda>ext. endsWith h (ext @ [ARCHIVE_SEPARATOR])) KNOWN_ARCHIVE_EXTENSIONS)"

section \<open>The archive codec\<close>

lemma firstIndex_None_iff: "firstIndex [c] s = None \<longleftrightarrow> c \<notin> set s"
  by (induction s) auto

lemma indexOf_char_neg: "indexOf s [c] 0 < 0 \<longleftrightarrow> c \<notin> set s"
proof (cases "firstIndex [c] s")
  case None
  then show ?thesis using firstIndex_None_iff[of c s] by (simp add: indexOf_def)
next
  case (Some k)
  then show ?thesis using firstIndex_None_iff[of c s] by (simp add: indexOf_def)
qed

lemma replace_at_prefix: "p \<noteq> [] \<Longrightarrow> replace (p @ t) p r = r @ t"
  by (cases p) simp_all

lemma prefix_take_iff: "prefix p s \<longleftrightarrow> take (length p) s = p"
  by (metis append_eq_conv_conj prefix_def take_is_prefix)

lemma take_replace_insert:
  "take (length p) (replace s p (p @ r)) = take (length p) s"
proof (induction s)
  case Nil
  then show ?case by simp
next
  case (Cons x xs)
  show ?case
  proof (cases "prefix p (x # xs)")
    case True
    then show ?thesis by (simp add: prefix_take_iff)
  next
    case False
    have "take (length p - 1) (replace xs p (p @ r)) = take (length p - 1) xs"
      using Cons.IH by (metis diff_le_self min.absorb1 take_take)
    with False show ?thesis by (cases "length p") auto
  qed
qed

lemma take_replace_delete:
  "take (length p) (replace s (p @ r) p) = take (length p) s"
proof (induction s)
  case Nil
  then show ?case by simp
next
  case (Cons x xs)
  show ?case
  proof (cases "prefix (p @ r) (x # xs)")
    case True
    then have "prefix p (x # xs)" by (meson append_prefixD)
    with True show ?thesis by (simp add: prefix_take_iff)
  next
    case False
    have "take (length p - 1) (replace xs (p @ r) p) = take (length p - 1) xs"
      using Cons.IH by (metis diff_le_self min.absorb1 take_take)
    with False show ?thesis by (cases "length p") auto
  qed
qed

lemma replace_insert_delete:
  assumes "p \<noteq> []"
  shows "replace (replace s p (p @ r)) (p @ r) p = s"
proof (induction s)
  case Nil
  with assms show ?case by simp
next
  case (Cons x xs)
  show ?case
  proof (cases "prefix p (x # xs)")
    case True
    then obtain t where t: "x # xs = p @ t" by (auto simp: prefix_def)
    from assms obtain y ys where p: "p = y # ys" by (cases p) auto
    have "replace (x # xs) p (p @ r) = p @ r @ t"
      using assms t by (simp add: replace_at_prefix)
    moreover have "replace (p @ r @ t) (p @ r) p = p @ t"
      using assms replace_at_prefix[of "p @ r" t p] by simp
    ultimately show ?thesis using t by simp
  next
    case False
    have "take (length p) (x # replace xs p (p @ r)) = take (length p) (x # xs)"
      using take_replace_insert[of p "x # xs" r] False by simp
    with False have "\<not> prefix p (x # replace xs p (p @ r))"
      by (simp add: prefix_take_iff)
    then have "\<not> prefix (p @ r) (x # replace xs p (p @ r))"
      by (meson append_prefixD)
    with False Cons.IH show ?thesis by simp
  qed
qed

lemma take_le_replace_insert:
  "n \<le> length p \<Longrightarrow> take n (replace s p (p @ r)) = take n s"
  by (metis min.absorb1 take_replace_insert take_take)

lemma take_le_replace_delete:
  "n \<le> length p \<Longrightarrow> take n (replace s (p @ r) p) = take n s"
  by (metis min.absorb1 take_replace_delete take_take)

lemma prefix_Cons_replace_insert:
  assumes "length q \<le> Suc (length p)"
  shows "prefix q (x # replace xs p (p @ r)) \<longleftrightarrow> prefix q (x # xs)"
proof (cases q)
  case Nil
  then show ?thesis by simp
next
  case (Cons y ys)
  with assms have "take (length ys) (replace xs p (p @ r)) = take (length ys) xs"
    by (simp add: take_le_replace_insert)
  with Cons show ?thesis by (simp add: prefix_take_iff)
qed

lemma prefix_Cons_replace_delete:
  assumes "length q \<le> Suc (length p)"
  shows "prefix q (x # replace xs (p @ r) p) \<longleftrightarrow> prefix q (x # xs)"
proof (cases q)
  case Nil
  then show ?thesis by simp
next
  case (Cons y ys)
  with assms have "take (length ys) (replace xs (p @ r) p) = take (length ys) xs"
    by (simp add: take_le_replace_delete)
  with Cons show ?thesis by (simp add: prefix_take_iff)
qed

lemma replace_Cons_other:
  "\<not> prefix p (x # xs) \<Longrightarrow> replace (x # xs) p r = x # replace xs p r"
  by simp

lemma jar_delete_zip_insert_commute:
  assumes "c \<noteq> CHR ''.''"
  shows "replace (replace t ''.zip!'' (''.zip!'' @ [c])) (''.jar!'' @ [c]) ''.jar!'' =
         replace (replace t (''.jar!'' @ [c]) ''.jar!'') ''.zip!'' (''.zip!'' @ [c])"
proof (induction t)
  case Nil
  then show ?case by simp
next
  case (Cons x xs)
  consider (zip) "prefix ''.zip!'' (x # xs)"
    | (jar) "prefix (''.jar!'' @ [c]) (x # xs)"
    | (none) "\<not> prefix ''.zip!'' (x # xs)" "\<not> prefix (''.jar!'' @ [c]) (x # xs)"
    by blast
  then show ?case
  proof cases
    case zip
    then obtain u where "x # xs = ''.zip!'' @ u" by (auto simp: prefix_def)
    then show ?thesis using assms by simp
  next
    case jar
    then obtain u where "x # xs = ''.jar!'' @ c # u" by (auto simp: prefix_def)
    then show ?thesis using assms by simp
  next
    case none
    have a: "\<not> prefix (''.jar!'' @ [c]) (x # replace xs ''.zip!'' (''.zip!'' @ [c]))"
      using none(2) prefix_Cons_replace_insert[of "''.jar!'' @ [c]" "''.zip!''" x xs "[c]"]
      by simp
    have b: "\<not> prefix ''.zip!'' (x # replace xs (''.jar!'' @ [c]) ''.jar!'')"
      using none(1) prefix_Cons_replace_delete[of "''.zip!''" "''.jar!''" x xs "[c]"]
      by simp
    have "replace (replace (x # xs) ''.zip!'' (''.zip!'' @ [c])) (''.jar!'' @ [c]) ''.jar!''
          = x # replace (replace xs ''.zip!'' (''.zip!'' @ [c])) (''.jar!'' @ [c]) ''.jar!''"
      using replace_Cons_other[OF none(1)] replace_Cons_other[OF a] by (simp only:)
    moreover have "replace (replace (x # xs) (''.jar!'' @ [c]) ''.jar!'') ''.zip!'' (''.zip!'' @ [c])
          = x # replace (replace xs (''.jar!'' @ [c]) ''.jar!'') ''.zip!'' (''.zip!'' @ [c])"
      using replace_Cons_other[OF none(2)] replace_Cons_other[OF b] by (simp only:)
    ultimately show ?thesis using Cons.IH by (simp only:)
  qed
qed

lemma set_replace_keeps:
  "c \<in> set p \<Longrightarrow> c \<in> set r \<Longrightarrow> c \<in> set s \<Longrightarrow> c \<in> set (replace s p r)"
proof (induction s)
  case Nil
  then show ?case by simp
next
  case (Cons x xs)
  then show ?case by auto
qed

lemma sep_not_dot: "sep d \<noteq> CHR ''.''"
  by (cases d) simp_all

lemma endsWithArchiveSeparator_last:
  assumes "endsWithArchiveSeparator s"
  shows "s \<noteq> [] \<and> last s = ARCHIVE_SEPARATOR"
proof -
  from assms have ne: "s \<noteq> []" and "s ! nat (int (length s) - 1) = ARCHIVE_SEPARATOR"
    by (auto simp: endsWithArchiveSeparator_def isArchiveSeparator_def charAt_def
        split: if_splits)
  moreover have "nat (int (length s) - 1) = length s - 1" by simp
  ultimately show ?thesis by (simp add: last_conv_nth)
qed

text \<open>
  Decoding an encoded string gives the string back up to the trailing archive separator
  that the decoder strips.
\<close>

lemma archiveDecode_archiveEncode: "archiveDecode d (archiveEncode d s) = trimArchiveSuffix s"
proof (cases "ARCHIVE_SEPARATOR \<in> set s")
  case False
  then have "\<not> endsWithArchiveSeparator s"
    by (metis endsWithArchiveSeparator_last last_in_set)
  with False show ?thesis
    by (simp add: archiveDecode_def archiveEncode_def indexOf_char_neg trimArchiveSuffix_def)
next
  case True
  let ?e = "replace (replace s ''.jar!'' (''.jar!'' @ [sep d])) ''.zip!'' (''.zip!'' @ [sep d])"
  have enc: "archiveEncode d s = ?e"
    using True by (simp add: archiveEncode_def indexOf_char_neg KNOWN_ARCHIVE_EXTENSIONS_def
        ARCHIVE_SEPARATOR_def)
  have "ARCHIVE_SEPARATOR \<in> set ?e"
    using True by (intro set_replace_keeps) (simp_all add: ARCHIVE_SEPARATOR_def)
  then have dec: "archiveDecode d ?e = trimArchiveSuffix
      (replace (replace ?e (''.jar!'' @ [sep d]) ''.jar!'') (''.zip!'' @ [sep d]) ''.zip!'')"
    by (simp add: archiveDecode_def indexOf_char_neg KNOWN_ARCHIVE_EXTENSIONS_def
        ARCHIVE_SEPARATOR_def)
  have "replace ?e (''.jar!'' @ [sep d]) ''.jar!'' = replace s ''.zip!'' (''.zip!'' @ [sep d])"
    using jar_delete_zip_insert_commute[OF sep_not_dot, of "replace s ''.jar!'' (''.jar!'' @ [sep d])" d]
      replace_insert_delete[of "''.jar!''" s "[sep d]"] by simp
  moreover have "replace (replace s ''.zip!'' (''.zip!'' @ [sep d])) (''.zip!'' @ [sep d]) ''.zip!'' = s"
    using replace_insert_delete[of "''.zip!''" s "[sep d]"] by simp
  ultimately show ?thesis using enc dec by simp
qed

text \<open>
  Claim C1, as amended.  For every string in which every archive separator comes
  immediately after a recognised archive extension and is not immediately followed by
  another archive separator, and which does not end with an archive separator, decoding
  the encoded string gives the string back, in both dialects.
\<close>

theorem archive_roundtrip:
  assumes "supportedNesting s" and "\<not> endsWith s [ARCHIVE_SEPARATOR]"
  shows "archiveDecode d (archiveEncode d s) = s"
proof -
  from assms(2) have "\<not> endsWithArchiveSeparator s"
    using endsWithArchiveSeparator_last[of s]
    by (auto simp: endsWith_def suffix_def) (metis append_butlast_last_id)
  then show ?thesis by (simp add: archiveDecode_archiveEncode trimArchiveSuffix_def)
qed

theorem archive_roundtrip_witness:
  "supportedNesting ''/a/lib.zip!src/x.jar!y'' \<and>
   \<not> endsWith ''/a/lib.zip!src/x.jar!y'' [ARCHIVE_SEPARATOR] \<and>
   archiveDecode Posix (archiveEncode Posix ''/a/lib.zip!src/x.jar!y'') = ''/a/lib.zip!src/x.jar!y'' \<and>
   archiveDecode Win32 (archiveEncode Win32 ''/a/lib.zip!src/x.jar!y'') = ''/a/lib.zip!src/x.jar!y''"
proof -
  have a: "supportedNesting ''/a/lib.zip!src/x.jar!y''" by code_simp
  have b: "\<not> endsWith ''/a/lib.zip!src/x.jar!y'' [ARCHIVE_SEPARATOR]" by code_simp
  show ?thesis
    using a b archive_roundtrip[OF a b, of Posix] archive_roundtrip[OF a b, of Win32] by simp
qed

text \<open>
  The claim without the last condition fails: the decoder strips a trailing archive
  separator, so a string that ends with one does not come back.
\<close>

theorem archive_roundtrip_counterexample:
  "supportedNesting ''a.zip!'' \<and>
   archiveDecode Posix (archiveEncode Posix ''a.zip!'') \<noteq> ''a.zip!''"
  by code_simp

text \<open>
  Claim C3.  The encoder is meant to insert the dialect separator after every archive
  separator that follows a recognised extension.  It calls \<open>replace\<close> with a string
  pattern once per extension, which rewrites only the first occurrence: in the path of
  a \<open>.zip\<close> archive nested in another \<open>.zip\<close> archive the second boundary is left
  as it was.
\<close>

theorem archiveEncode_first_occurrence_only:
  "archiveEncode Posix ''a.zip!b.zip!c'' = ''a.zip!/b.zip!c''"
  by (simp add: archiveEncode_def indexOf_def ARCHIVE_SEPARATOR_def
      KNOWN_ARCHIVE_EXTENSIONS_def)

section \<open>Parsing and illegal URIs\<close>

lemma andThen_simps [simp]:
  "andThen (Inl e) f = Inl e"
  "andThen (Inr x) f = f x"
  by (simp_all add: andThen_def)

lemma firstIndex_at_prefix: "firstIndex p (p @ t) = Some 0"
proof (cases "p @ t")
  case Nil
  then show ?thesis by simp
next
  case (Cons a list)
  have "prefix p (p @ t)" by simp
  with Cons show ?thesis by (simp del: prefix_code)
qed

lemma firstIndex_append_found:
  "firstIndex p (a @ p @ t) \<noteq> None"
  by (induction a) (auto simp: firstIndex_at_prefix)

lemma isAtomUri_has_scheme: "isAtomUri uri \<Longrightarrow> indexOf uri ''://'' 0 \<noteq> - 1"
proof -
  assume "isAtomUri uri"
  then obtain t where "uri = ''atom'' @ ''://'' @ t"
    by (auto simp: isAtomUri_def startsWith_def prefix_def)
  then have "firstIndex ''://'' uri \<noteq> None"
    using firstIndex_append_found[of "''://''" "''atom''" t] by simp
  then show ?thesis by (auto simp: indexOf_def split: option.splits)
qed

lemma isAtomUri_not_remote: "isAtomUri uri \<Longrightarrow> \<not> isRemote uri"
  by (auto simp: isAtomUri_def isRemote_def startsWith_def prefix_def REMOTE_PATH_URI_PREFIX_def)

lemma parse_ok_legal:
  assumes "parse uri = Inr p"
  shows "testForIllegalUri uri = Inr ()"
proof -
  have "\<not> endsWithArchiveSeparator uri"
    using assms by (auto simp: parse_def Let_def split: if_splits)
  moreover have "\<not> isAtomUri uri"
  proof
    assume a: "isAtomUri uri"
    then show False using assms isAtomUri_has_scheme[OF a] isAtomUri_not_remote[OF a]
      by (auto simp: parse_def isRemote_def split: if_splits)
  qed
  ultimately show ?thesis by (simp add: testForIllegalUri_def)
qed

lemma legal_pathModuleFor:
  "testForIllegalUri uri = Inr () \<Longrightarrow> \<exists>d. pathModuleFor uri = Inr d"
  by (auto simp: testForIllegalUri_def pathModuleFor_def split: if_splits)

lemma parse_remote_hostname:
  assumes "parse uri = Inr p" and "isRemote uri"
  shows "\<exists>h. hostname p = Some h \<and> h \<noteq> [] \<and> parseRemoteUri uri = Inr (h, path p)"
  using assms
  by (auto simp: parse_def parseRemoteUri_def isRemote_def Let_def split: if_splits)

text \<open>
  Claim C6.  For location values that \<open>parse\<close> accepts, \<open>relative\<close> fails with the
  cross-host error exactly when one of the two is remote and the other is not, or both are
  remote and their hostnames differ; in every other case it returns a value.
\<close>

theorem relative_cross_host:
  assumes "parse a = Inr pa" and "parse b = Inr pb"
  shows "(relative nrelative a b = Inl CrossHost \<longleftrightarrow>
            isRemote a \<noteq> isRemote b \<or> (isRemote a \<and> hostname pa \<noteq> hostname pb)) \<and>
         (\<not> (isRemote a \<noteq> isRemote b \<or> (isRemote a \<and> hostname pa \<noteq> hostname pb)) \<longrightarrow>
            (\<exists>r. relative nrelative a b = Inr r))"
proof -
  have legal: "testForIllegalUri a = Inr ()" using assms(1) by (rule parse_ok_legal)
  then obtain d where d: "pathModuleFor a = Inr d" using legal_pathModuleFor by blast
  show ?thesis
  proof (cases "isRemote a")
    case False
    then show ?thesis using legal d by (simp add: relative_def Let_def)
  next
    case True
    note ra = True
    show ?thesis
    proof (cases "isRemote b")
      case False
      then show ?thesis using ra legal d by (simp add: relative_def Let_def)
    next
      case True
      from parse_remote_hostname[OF assms(1) ra] obtain ha where
        ha: "hostname pa = Some ha" "parseRemoteUri a = Inr (ha, path pa)" by blast
      from parse_remote_hostname[OF assms(2) True] obtain hb where
        hb: "hostname pb = Some hb" "parseRemoteUri b = Inr (hb, path pb)" by blast
      show ?thesis using ra True legal d ha hb assms
        by (simp add: relative_def Let_def getHostname_def getPath_def)
    qed
  qed
qed

theorem relative_cross_host_witness:
  "parse ''nuclide://h1/a/b'' = Inr \<lparr>hostname = Some ''h1'', path = ''/a/b''\<rparr> \<and>
   parse ''nuclide://h2/a'' = Inr \<lparr>hostname = Some ''h2'', path = ''/a''\<rparr> \<and>
   (\<forall>nrelative. relative nrelative ''nuclide://h1/a/b'' ''nuclide://h2/a'' = Inl CrossHost)"
proof -
  have a: "parse ''nuclide://h1/a/b'' = Inr \<lparr>hostname = Some ''h1'', path = ''/a/b''\<rparr>"
    by code_simp
  have b: "parse ''nuclide://h2/a'' = Inr \<lparr>hostname = Some ''h2'', path = ''/a''\<rparr>"
    by code_simp
  have r: "isRemote ''nuclide://h1/a/b''" by code_simp
  show ?thesis using a b r relative_cross_host[OF a b] by simp
qed

section \<open>Path lists and parsing of short names\<close>

lemma split_on_no_delimiter: "d \<notin> set x \<Longrightarrow> split_on d x = [x]"
  by (induction x) auto

lemma split_on_append_delimiter:
  "d \<notin> set x \<Longrightarrow> split_on d (x @ d # r) = x # split_on d r"
  by (induction x) auto

lemma split_on_join_with:
  "xs \<noteq> [] \<Longrightarrow> \<forall>x\<in>set xs. d \<notin> set x \<Longrightarrow> split_on d (join_with d xs) = xs"
  by (induction d xs rule: join_with.induct)
     (simp_all add: split_on_no_delimiter split_on_append_delimiter)

text \<open>
  Claim C9, as amended.  For a non-empty list of local paths, none of which contains the
  list delimiter of the dialect chosen for the first element, and whose joined string does
  not contain the remote prefix and is given that same dialect, splitting the joined
  string gives the list back.
\<close>

theorem pathList_roundtrip:
  assumes "xs \<noteq> []"
    and "list_all (\<lambda>p. \<not> isRemote p) xs"
    and "pathModuleFor (hd xs) = Inr d"
    and "list_all (\<lambda>p. delimiter d \<notin> set p) xs"
    and "indexOf (join_with (delimiter d) xs) REMOTE_PATH_URI_PREFIX 0 < 0"
    and "pathModuleFor (join_with (delimiter d) xs) = Inr d"
  shows "andThen (joinPathList xs) splitPathList = Inr xs"
  using assms
  by (simp add: joinPathList_def splitPathList_def split_on_join_with list_all_iff)

theorem pathList_roundtrip_witness:
  "[''/usr/bin'', ''/bin''] \<noteq> [] \<and>
   list_all (\<lambda>p. \<not> isRemote p) [''/usr/bin'', ''/bin''] \<and>
   pathModuleFor (hd [''/usr/bin'', ''/bin'']) = Inr Posix \<and>
   list_all (\<lambda>p. delimiter Posix \<notin> set p) [''/usr/bin'', ''/bin''] \<and>
   indexOf (join_with (delimiter Posix) [''/usr/bin'', ''/bin'']) REMOTE_PATH_URI_PREFIX 0 < 0 \<and>
   pathModuleFor (join_with (delimiter Posix) [''/usr/bin'', ''/bin'']) = Inr Posix \<and>
   andThen (joinPathList [''/usr/bin'', ''/bin'']) splitPathList = Inr [''/usr/bin'', ''/bin'']"
proof -
  have 1: "[''/usr/bin'', ''/bin''] \<noteq> []" by simp
  have 2: "list_all (\<lambda>p. \<not> isRemote p) [''/usr/bin'', ''/bin'']" by code_simp
  have 3: "pathModuleFor (hd [''/usr/bin'', ''/bin'']) = Inr Posix" by code_simp
  have 4: "list_all (\<lambda>p. delimiter Posix \<notin> set p) [''/usr/bin'', ''/bin'']" by simp
  have 5: "indexOf (join_with (delimiter Posix) [''/usr/bin'', ''/bin'']) REMOTE_PATH_URI_PREFIX 0 < 0"
    by code_simp
  have 6: "pathModuleFor (join_with (delimiter Posix) [''/usr/bin'', ''/bin'']) = Inr Posix"
    by code_simp
  show ?thesis using 1 2 3 4 5 6 pathList_roundtrip[OF 1 2 3 4 5 6] by blast
qed

text \<open>
  The empty list does not come back: it is joined to the empty string, which splits into
  one empty path.
\<close>

theorem pathList_roundtrip_counterexample:
  "andThen (joinPathList []) splitPathList = Inr [[]] \<and>
   andThen (joinPathList []) splitPathList \<noteq> Inr []"
  by code_simp

lemma indexOf_lower: "- 1 \<le> indexOf s pat pos"
  by (auto simp: indexOf_def Let_def split: option.splits)

lemma firstIndex_zero: "firstIndex pat s = Some 0 \<Longrightarrow> prefix pat s"
  by (cases s) (auto split: if_splits)

text \<open>
  What the test for a trailing archive separator accepts: the strings that end with a
  recognised extension followed by the separator character, and every string of four
  characters that ends with the separator character.
\<close>

lemma endsWithArchiveSeparator_iff:
  "endsWithArchiveSeparator s \<longleftrightarrow>
     (length s = 4 \<and> last s = ARCHIVE_SEPARATOR) \<or>
     (\<exists>ext\<in>set KNOWN_ARCHIVE_EXTENSIONS. suffix (ext @ [ARCHIVE_SEPARATOR]) s)"
proof
  assume e: "endsWithArchiveSeparator s"
  then have ne: "s \<noteq> []" and l: "last s = ARCHIVE_SEPARATOR"
    using endsWithArchiveSeparator_last by auto
  from e obtain ext where ext: "ext \<in> set KNOWN_ARCHIVE_EXTENSIONS"
    and ix: "indexOf s ext (int (length s) - 1 - int (length ext)) =
             int (length s) - 1 - int (length ext)"
    by (auto simp: endsWithArchiveSeparator_def isArchiveSeparator_def list_ex_iff Let_def)
  from ext have len: "length ext = 4" by (auto simp: KNOWN_ARCHIVE_EXTENSIONS_def)
  show "(length s = 4 \<and> last s = ARCHIVE_SEPARATOR) \<or>
     (\<exists>ext\<in>set KNOWN_ARCHIVE_EXTENSIONS. suffix (ext @ [ARCHIVE_SEPARATOR]) s)"
  proof (cases "length s \<ge> 5")
    case True
    define k where "k = length s - 5"
    have k: "int (length s) - 1 - int (length ext) = int k" "k + 5 = length s"
      using True len by (auto simp: k_def)
    from ix k have "firstIndex ext (drop k s) = Some 0"
      by (auto simp: indexOf_def split: option.splits)
    then have "prefix ext (drop k s)" by (rule firstIndex_zero)
    then obtain t where t: "drop k s = ext @ t" by (auto simp: prefix_def)
    have "length (drop k s) = 5" using k(2) by simp
    with t len have "length t = 1" by simp
    then obtain c where c: "t = [c]" by (cases t) auto
    define u where "u = take k s"
    have "u @ drop k s = s" by (simp add: u_def)
    with t c have s: "s = u @ ext @ [c]" by simp
    then have "last s = c" by simp
    with l s have "s = u @ (ext @ [ARCHIVE_SEPARATOR])" by simp
    then have "suffix (ext @ [ARCHIVE_SEPARATOR]) s" by (rule suffixI)
    with ext show ?thesis by blast
  next
    case False
    have "- 1 \<le> int (length s) - 1 - int (length ext)"
      using ix indexOf_lower[of s ext "int (length s) - 1 - int (length ext)"] by simp
    with len False have "length s = 4" by simp
    with l show ?thesis by simp
  qed
next
  assume r: "(length s = 4 \<and> last s = ARCHIVE_SEPARATOR) \<or>
     (\<exists>ext\<in>set KNOWN_ARCHIVE_EXTENSIONS. suffix (ext @ [ARCHIVE_SEPARATOR]) s)"
  then show "endsWithArchiveSeparator s"
  proof
    assume a: "length s = 4 \<and> last s = ARCHIVE_SEPARATOR"
    then have "length s = Suc (Suc (Suc (Suc 0)))" by simp
    then obtain a1 a2 a3 a4 where s: "s = [a1, a2, a3, a4]"
      by (auto simp: length_Suc_conv)
    with a have "a4 = ARCHIVE_SEPARATOR" by simp
    with s show ?thesis
      by (simp add: endsWithArchiveSeparator_def isArchiveSeparator_def charAt_def
          KNOWN_ARCHIVE_EXTENSIONS_def indexOf_def ARCHIVE_SEPARATOR_def)
  next
    assume "\<exists>ext\<in>set KNOWN_ARCHIVE_EXTENSIONS. suffix (ext @ [ARCHIVE_SEPARATOR]) s"
    then obtain ext u where ext: "ext \<in> set KNOWN_ARCHIVE_EXTENSIONS"
      and s: "s = u @ ext @ [ARCHIVE_SEPARATOR]" by (auto simp: suffix_def)
    have "firstIndex ext (drop (length u) s) = Some 0"
      using s firstIndex_at_prefix[of ext "[ARCHIVE_SEPARATOR]"] by simp
    then have "indexOf s ext (int (length s) - 1 - int (length ext)) =
             int (length s) - 1 - int (length ext)"
      using s by (simp add: indexOf_def)
    moreover have "charAt s (int (length s) - 1) = [ARCHIVE_SEPARATOR]"
    proof -
      have n: "nat (int (length s) - 1) = length (u @ ext)" using s by simp
      have "s ! length (u @ ext) = ARCHIVE_SEPARATOR"
        using s nth_append_length[of "u @ ext" ARCHIVE_SEPARATOR "[]"] by simp
      with n show ?thesis using s by (simp add: charAt_def)
    qed
    ultimately show ?thesis using ext
      by (auto simp: endsWithArchiveSeparator_def isArchiveSeparator_def list_ex_iff Let_def)
  qed
qed

text \<open>
  Claim C4.  A local name without \<open>://\<close> is to be returned as the path unless it ends with
  an archive separator, that is, with the separator character right after a recognised
  extension.  The test for the extension compares the result of \<open>indexOf\<close> with the
  expected offset; for a name of four characters that offset is \<open>-1\<close>, which is also what
  \<open>indexOf\<close> returns when it finds nothing.  So a four-character name ending in the
  separator character is rejected although no extension precedes it, while the same name
  with one more character is accepted.
\<close>

theorem parse_short_name_with_bang:
  "parse ''abc!'' = Inl ParseArchiveSuffix \<and>
   \<not> precededByExtension ''abc!'' 3 \<and>
   parse ''abcd!'' = Inr \<lparr>hostname = None, path = ''abcd!''\<rparr>"
  by code_simp

lemma atom_illegal: "isAtomUri uri \<Longrightarrow> testForIllegalUri uri = Inl IllegalAtomUri"
  by (simp add: testForIllegalUri_def)

section \<open>Home directory expansion\<close>

lemma tilde_not_remote: "startsWith uri ''~'' \<Longrightarrow> \<not> isRemote uri"
  by (auto simp: startsWith_def isRemote_def REMOTE_PATH_URI_PREFIX_def prefix_def)

lemma replace_tilde: "startsWith uri ''~'' \<Longrightarrow> replace uri ''~'' ''.'' = CHR ''.'' # tl uri"
  by (cases uri) (auto simp: startsWith_def)

text \<open>
  Claim C8, as amended.  An argument that does not start with \<open>~\<close> is returned as it
  is.  One that does makes the operation fail when the home variable is unset, whether or
  not the home directory is asked for.  When the variable is set, \<open>~\<close> gives the home
  directory, \<open>~/rest\<close> is resolved against it, and anything else (\<open>~abc\<close>) is returned
  as it is.
\<close>

theorem expandHomeDir_behaviour:
  assumes "testForIllegalUri uri = Inr ()"
  shows "(\<not> startsWith uri ''~'' \<longrightarrow> expandHomeDir nresolve env uri = Inr uri) \<and>
         (startsWith uri ''~'' \<and> homeVariable env = None \<longrightarrow>
            expandHomeDir nresolve env uri = Inl MissingHome) \<and>
         (\<forall>home. startsWith uri ''~'' \<and> homeVariable env = Some home \<longrightarrow>
            expandHomeDir nresolve env uri =
              (if uri = ''~'' then Inr home
               else if expansionRequested env uri
                    then Inr (nresolve (hostPathModule env) [home, CHR ''.'' # tl uri])
               else Inr uri))"
proof (cases "startsWith uri ''~''")
  case False
  with assms show ?thesis by (simp add: expandHomeDir_def)
next
  case True
  note nr = tilde_not_remote[OF True] and rp = replace_tilde[OF True]
  show ?thesis
  proof (cases "homeVariable env")
    case None
    with assms True nr show ?thesis
      by (auto simp: expandHomeDir_def homeVariable_def Let_def split: if_splits)
  next
    case (Some home)
    with assms True nr rp show ?thesis
      by (auto simp: expandHomeDir_def homeVariable_def expansionRequested_def Let_def
          split: if_splits)
  qed
qed

theorem expandHomeDir_behaviour_witness:
  "testForIllegalUri ''~/x'' = Inr () \<and>
   startsWith ''~/x'' ''~'' \<and>
   homeVariable \<lparr>HOME = Some ''/home/u'', UserProfile = None, platform = ''linux''\<rparr>
     = Some ''/home/u'' \<and>
   (\<forall>nresolve.
      expandHomeDir nresolve
        \<lparr>HOME = Some ''/home/u'', UserProfile = None, platform = ''linux''\<rparr> ''~/x''
      = Inr (nresolve Posix [''/home/u'', ''./x'']))"
proof -
  let ?env = "\<lparr>HOME = Some ''/home/u'', UserProfile = None, platform = ''linux''\<rparr>"
  have a: "testForIllegalUri ''~/x'' = Inr ()" by code_simp
  have b: "startsWith ''~/x'' ''~''" by code_simp
  have c: "homeVariable ?env = Some ''/home/u''" by code_simp
  have d: "expansionRequested ?env ''~/x''" by code_simp
  have e: "hostPathModule ?env = Posix" by code_simp
  show ?thesis
    using a b c d e expandHomeDir_behaviour[OF a, of _ ?env] by simp
qed

text \<open>
  With the home variable unset, \<open>~abc\<close> is not returned: the operation fails although
  no expansion is asked for.  (The resolve function of the runtime is not reached on this
  input; an arbitrary function stands for it.)
\<close>

theorem expandHomeDir_counterexample:
  "\<not> expansionRequested \<lparr>HOME = None, UserProfile = None, platform = ''linux''\<rparr> ''~abc'' \<and>
   expandHomeDir (\<lambda>d ps. [])
     \<lparr>HOME = None, UserProfile = None, platform = ''linux''\<rparr> ''~abc'' = Inl MissingHome"
  by code_simp

section \<open>Remote locations\<close>

lemma archiveEncode_no_separator:
  "ARCHIVE_SEPARATOR \<notin> set s \<Longrightarrow> archiveEncode d s = s"
  by (simp add: archiveEncode_def indexOf_char_neg)

lemma archiveDecode_no_separator:
  "ARCHIVE_SEPARATOR \<notin> set s \<Longrightarrow> archiveDecode d s = s"
  by (simp add: archiveDecode_def indexOf_char_neg)

lemma no_separator_not_endsWithArchiveSeparator:
  "ARCHIVE_SEPARATOR \<notin> set s \<Longrightarrow> \<not> endsWithArchiveSeparator s"
  by (metis endsWithArchiveSeparator_last last_in_set)

lemma firstIndex_char_Some:
  "firstIndex [c] s = Some k \<Longrightarrow> k < length s \<and> s ! k = c \<and> c \<notin> set (take k s)"
proof (induction s arbitrary: k)
  case Nil
  then show ?case by simp
next
  case (Cons x xs)
  show ?case
  proof (cases "x = c")
    case True
    with Cons.prems show ?thesis by simp
  next
    case False
    with Cons.prems obtain j where j: "firstIndex [c] xs = Some j" "k = Suc j"
      by (auto split: if_splits)
    from Cons.IH[OF j(1)] False j(2) show ?thesis by simp
  qed
qed

lemma firstIndex_char_append:
  "c \<notin> set h \<Longrightarrow> firstIndex [c] (h @ c # q) = Some (length h)"
  by (induction h) auto

lemma parse_remote_shape:
  assumes "parse s = Inr ps" and "isRemote s"
  shows "\<exists>h. hostname ps = Some h \<and> h \<noteq> [] \<and> CHR ''/'' \<notin> set h \<and>
             startsWith (path ps) ''/'' \<and> s = REMOTE_PATH_URI_PREFIX @ h @ path ps"
proof -
  define hp where "hp = drop (length REMOTE_PATH_URI_PREFIX) s"
  from assms(2) have s: "s = REMOTE_PATH_URI_PREFIX @ hp"
    by (auto simp: isRemote_def startsWith_def prefix_def hp_def)
  from assms obtain k where k: "firstIndex ''/'' hp = Some k"
    and ps: "ps = \<lparr>hostname = Some (take k hp), path = drop k hp\<rparr>" and ne: "take k hp \<noteq> []"
    unfolding hp_def
    by (auto simp: parse_def isRemote_def indexOf_def Let_def split: if_splits option.splits)
  from firstIndex_char_Some[OF k] have kl: "k < length hp" and kc: "hp ! k = CHR ''/''"
    and kn: "CHR ''/'' \<notin> set (take k hp)" by auto
  have "drop k hp = CHR ''/'' # drop (Suc k) hp"
    using Cons_nth_drop_Suc[OF kl] kc by simp
  then have "startsWith (drop k hp) ''/''" by (simp add: startsWith_def)
  moreover have "s = REMOTE_PATH_URI_PREFIX @ take k hp @ drop k hp" using s by simp
  ultimately show ?thesis using ps ne kn by simp
qed



lemma remote_is_posix:
  "isRemote s \<Longrightarrow> \<not> endsWithArchiveSeparator s \<Longrightarrow> pathModuleFor s = Inr Posix"
proof -
  assume r: "isRemote s" and "\<not> endsWithArchiveSeparator s"
  from r obtain t where "s = ''nuclide'' @ ''://'' @ t"
    by (auto simp: isRemote_def startsWith_def prefix_def REMOTE_PATH_URI_PREFIX_def)
  then have "firstIndex ''://'' s \<noteq> None"
    using firstIndex_append_found[of "''://''" "''nuclide''" t] by simp
  then have "indexOf s ''://'' 0 > - 1" by (auto simp: indexOf_def split: option.splits)
  with \<open>\<not> endsWithArchiveSeparator s\<close> show ?thesis by (simp add: pathModuleFor_def)
qed


section \<open>Hostnames under join\<close>

lemma startsWith_slash_replace_delete:
  assumes "startsWith s ''/''" and "p \<noteq> []"
  shows "startsWith (replace s (p @ r) p) ''/''"
proof -
  have "take 1 (replace s (p @ r) p) = take 1 s"
    using assms(2) by (intro take_le_replace_delete) (cases p, auto)
  moreover from assms(1) have "take 1 s = ''/''" by (auto simp: startsWith_def prefix_def)
  ultimately show ?thesis
    by (simp add: startsWith_def prefix_take_iff)
qed

lemma extension_without_slash:
  "ext \<in> set KNOWN_ARCHIVE_EXTENSIONS \<Longrightarrow> CHR ''/'' \<notin> set (ext @ [ARCHIVE_SEPARATOR])"
  by (auto simp: KNOWN_ARCHIVE_EXTENSIONS_def ARCHIVE_SEPARATOR_def)

lemma suffix_behind_slash:
  assumes "suffix e (w @ z)" and "startsWith z ''/''" and "CHR ''/'' \<notin> set e"
  shows "suffix e z"
proof -
  from assms(1) have "suffix e z \<or> (\<exists>e'. e = e' @ z \<and> suffix e' w)"
    by (simp only: suffix_append)
  moreover have "\<not> (\<exists>e'. e = e' @ z \<and> suffix e' w)"
  proof
    assume "\<exists>e'. e = e' @ z \<and> suffix e' w"
    then obtain e' where "e = e' @ z" by blast
    with assms(2) have "CHR ''/'' \<in> set e" by (auto simp: startsWith_def prefix_def)
    with assms(3) show False by simp
  qed
  ultimately show ?thesis by blast
qed

lemma trimmed_behind_hostname:
  assumes "startsWith z ''/''" and "4 \<le> length w"
  shows "startsWith (trimArchiveSuffix z) ''/'' \<and>
         \<not> endsWithArchiveSeparator (w @ trimArchiveSuffix z)"
proof -
  have behind: "\<not> endsWithArchiveSeparator (w @ y)"
    if y: "startsWith y ''/''" and ny: "\<And>ext. ext \<in> set KNOWN_ARCHIVE_EXTENSIONS \<Longrightarrow>
        \<not> suffix (ext @ [ARCHIVE_SEPARATOR]) y" for y
  proof
    assume "endsWithArchiveSeparator (w @ y)"
    moreover from y have "y \<noteq> []" by (auto simp: startsWith_def)
    then have "length (w @ y) \<noteq> 4" using assms(2) by (cases y) auto
    ultimately obtain ext where ext: "ext \<in> set KNOWN_ARCHIVE_EXTENSIONS"
      "suffix (ext @ [ARCHIVE_SEPARATOR]) (w @ y)"
      by (auto simp: endsWithArchiveSeparator_iff)
    from suffix_behind_slash[OF ext(2) y extension_without_slash[OF ext(1)]] ny[OF ext(1)]
    show False by simp
  qed
  show ?thesis
  proof (cases "endsWithArchiveSeparator z")
    case False
    then have "\<And>ext. ext \<in> set KNOWN_ARCHIVE_EXTENSIONS \<Longrightarrow>
        \<not> suffix (ext @ [ARCHIVE_SEPARATOR]) z"
      by (auto simp: endsWithArchiveSeparator_iff)
    with behind[OF assms(1)] False assms(1) show ?thesis
      by (simp add: trimArchiveSuffix_def)
  next
    case True
    then have zl: "z \<noteq> []" "last z = ARCHIVE_SEPARATOR"
      using endsWithArchiveSeparator_last by auto
    define y where "y = butlast z"
    have z: "z = y @ [ARCHIVE_SEPARATOR]"
      using zl by (metis append_butlast_last_id y_def)
    from assms(1) z have ys: "startsWith y ''/''"
      by (cases y) (auto simp: startsWith_def ARCHIVE_SEPARATOR_def)
    have tr: "trimArchiveSuffix z = y"
      using True z by (simp add: trimArchiveSuffix_def)
    have "\<not> suffix (ext @ [ARCHIVE_SEPARATOR]) y" if ext: "ext \<in> set KNOWN_ARCHIVE_EXTENSIONS" for ext
    proof
      assume sy: "suffix (ext @ [ARCHIVE_SEPARATOR]) y"
      from True consider (four) "length z = 4"
        | (e) ext' where "ext' \<in> set KNOWN_ARCHIVE_EXTENSIONS"
            "suffix (ext' @ [ARCHIVE_SEPARATOR]) z"
        by (auto simp: endsWithArchiveSeparator_iff)
      then show False
      proof cases
        case four
        with z have "length y = 3" by simp
        moreover from sy have "length (ext @ [ARCHIVE_SEPARATOR]) \<le> length y"
          by (rule suffix_length_le)
        moreover from ext have "length ext = 4" by (auto simp: KNOWN_ARCHIVE_EXTENSIONS_def)
        ultimately show ?thesis by simp
      next
        case e
        from e(2) z have "suffix ext' y" by simp
        then obtain u where u: "y = u @ ext'" by (auto simp: suffix_def)
        from sy obtain v where v: "y = v @ ext @ [ARCHIVE_SEPARATOR]" by (auto simp: suffix_def)
        from e(1) have "ext' \<noteq> []" "last ext' \<noteq> ARCHIVE_SEPARATOR"
          by (auto simp: KNOWN_ARCHIVE_EXTENSIONS_def ARCHIVE_SEPARATOR_def)
        with u have "last y \<noteq> ARCHIVE_SEPARATOR" by simp
        moreover from v have "last y = ARCHIVE_SEPARATOR" by simp
        ultimately show ?thesis by simp
      qed
    qed
    with behind[OF ys] ys tr show ?thesis by simp
  qed
qed

lemma decoded_behind_hostname:
  assumes "startsWith x ''/''" and "4 \<le> length w"
  shows "startsWith (archiveDecode d x) ''/'' \<and>
         \<not> endsWithArchiveSeparator (w @ archiveDecode d x)"
proof (cases "ARCHIVE_SEPARATOR \<in> set x")
  case False
  from assms(1) have xne: "x \<noteq> []" by (auto simp: startsWith_def)
  then have "last (w @ x) = last x" by simp
  moreover have "last x \<in> set x" using xne by (rule last_in_set)
  ultimately have "last (w @ x) \<noteq> ARCHIVE_SEPARATOR" using False by metis
  then have "\<not> endsWithArchiveSeparator (w @ x)"
    using endsWithArchiveSeparator_last[of "w @ x"] by blast
  with False assms(1) show ?thesis by (simp add: archiveDecode_no_separator)
next
  case True
  define z where
    "z = replace (replace x (''.jar!'' @ [sep d]) ''.jar!'') (''.zip!'' @ [sep d]) ''.zip!''"
  have "archiveDecode d x = trimArchiveSuffix z"
    using True by (simp add: archiveDecode_def indexOf_char_neg KNOWN_ARCHIVE_EXTENSIONS_def
        ARCHIVE_SEPARATOR_def z_def)
  moreover have "startsWith z ''/''"
    unfolding z_def using assms(1) by (intro startsWith_slash_replace_delete) simp_all
  ultimately show ?thesis using trimmed_behind_hostname[OF _ assms(2), of z] by simp
qed

lemma createRemoteUri_decoded:
  assumes "h \<noteq> []" and "CHR ''/'' \<notin> set h" and "startsWith x ''/''"
  shows "\<exists>u p. createRemoteUri h (archiveDecode d x) = Inr u \<and>
               parse u = Inr \<lparr>hostname = Some h, path = p\<rparr>"
proof -
  define y where "y = archiveDecode d x"
  have "4 \<le> length (REMOTE_PATH_URI_PREFIX @ h)" by (simp add: REMOTE_PATH_URI_PREFIX_def)
  from decoded_behind_hostname[OF assms(3) this, of d]
  have ys: "startsWith y ''/''"
    and ne: "\<not> endsWithArchiveSeparator (REMOTE_PATH_URI_PREFIX @ h @ y)"
    by (simp_all add: y_def)
  from ys have yne: "y \<noteq> []" by (auto simp: startsWith_def)
  have c: "createRemoteUri h y = Inr (REMOTE_PATH_URI_PREFIX @ h @ y)"
    using yne by (simp add: createRemoteUri_def REMOTE_PATH_URI_PREFIX_def)
  from ys obtain y' where y': "y = CHR ''/'' # y'" by (auto simp: startsWith_def prefix_def)
  have "firstIndex ''/'' (h @ y) = Some (length h)"
    using firstIndex_char_append[OF assms(2)] y' by simp
  then have "parse (REMOTE_PATH_URI_PREFIX @ h @ y) = Inr \<lparr>hostname = Some h, path = y\<rparr>"
    using assms(1) ne by (simp add: parse_def startsWith_def indexOf_def)
  with c show ?thesis unfolding y_def by blast
qed

text \<open>
  The three operations that decode the path alone keep the hostname of a remote location
  that \<open>parse\<close> accepts, whenever the native function returns a path that starts with the
  separator (as the POSIX functions do on an absolute path).
\<close>

lemma siblings_keep_hostname:
  assumes "parse r = Inr pr" and "isRemote r"
  shows "startsWith (nnormalize Posix (archiveEncode Posix (path pr))) ''/'' \<Longrightarrow>
           \<exists>u p. normalize nnormalize r = Inr u \<and>
                 parse u = Inr \<lparr>hostname = hostname pr, path = p\<rparr>"
    and "startsWith (ndirname Posix (archiveEncode Posix (path pr))) ''/'' \<Longrightarrow>
           \<exists>u p. dirname ndirname r = Inr u \<and>
                 parse u = Inr \<lparr>hostname = hostname pr, path = p\<rparr>"
    and "startsWith (nresolve Posix (map (archiveEncode Posix) (path pr # paths))) ''/'' \<Longrightarrow>
           \<exists>u p. resolve nresolve r paths = Inr u \<and>
                 parse u = Inr \<lparr>hostname = hostname pr, path = p\<rparr>"
proof -
  from parse_remote_shape[OF assms] obtain h where
    h: "hostname pr = Some h" "h \<noteq> []" "CHR ''/'' \<notin> set h" by blast
  have legal: "testForIllegalUri r = Inr ()" using assms(1) by (rule parse_ok_legal)
  then have "\<not> endsWithArchiveSeparator r"
    by (auto simp: testForIllegalUri_def split: if_splits)
  then have d: "pathModuleFor r = Inr Posix" using assms(2) remote_is_posix by blast
  have pr: "parseRemoteUri r = Inr (h, path pr)"
    using assms h by (simp add: parseRemoteUri_def)
  show "\<exists>u p. normalize nnormalize r = Inr u \<and>
                 parse u = Inr \<lparr>hostname = hostname pr, path = p\<rparr>"
    if "startsWith (nnormalize Posix (archiveEncode Posix (path pr))) ''/''"
    using createRemoteUri_decoded[OF h(2,3) that, of Posix] legal d assms(2) pr h(1)
    by (simp add: normalize_def)
  show "\<exists>u p. dirname ndirname r = Inr u \<and>
                 parse u = Inr \<lparr>hostname = hostname pr, path = p\<rparr>"
    if "startsWith (ndirname Posix (archiveEncode Posix (path pr))) ''/''"
    using createRemoteUri_decoded[OF h(2,3) that, of Posix] legal d assms(2) pr h(1)
    by (simp add: dirname_def)
  show "\<exists>u p. resolve nresolve r paths = Inr u \<and>
                 parse u = Inr \<lparr>hostname = hostname pr, path = p\<rparr>"
    if "startsWith (nresolve Posix (map (archiveEncode Posix) (path pr # paths))) ''/''"
    using createRemoteUri_decoded[OF h(2,3) that, of Posix] legal d assms(2) pr h(1)
    by (simp add: resolve_def)
qed

lemma replace_past_other_chars:
  assumes "pat \<noteq> []" and "hd pat \<notin> set a"
  shows "replace (a @ t) pat rep = a @ replace t pat rep"
  using assms(2)
proof (induction a)
  case Nil
  then show ?case by simp
next
  case (Cons c a)
  have "\<not> prefix pat (c # a @ t)"
  proof
    assume "prefix pat (c # a @ t)"
    with assms(1) have "hd pat = c" by (cases pat) auto
    with Cons.prems show False by simp
  qed
  with Cons show ?case by simp
qed

lemma no_match_across_hostname:
  assumes "c \<notin> set e" and "c \<notin> set h" and "\<not> suffix e h"
  shows "\<not> prefix (e @ [c]) (h @ c # x)"
proof
  assume "prefix (e @ [c]) (h @ c # x)"
  then have "prefix (e @ [c]) h \<or> (\<exists>us. e @ [c] = h @ us \<and> prefix us (c # x))"
    by (simp only: prefix_append)
  then show False
  proof
    assume "prefix (e @ [c]) h"
    then have "set (e @ [c]) \<subseteq> set h" by (rule set_mono_prefix)
    with assms(2) show False by simp
  next
    assume "\<exists>us. e @ [c] = h @ us \<and> prefix us (c # x)"
    then obtain us where us: "e @ [c] = h @ us" "prefix us (c # x)" by blast
    show False
    proof (cases us)
      case Nil
      with us(1) have "c \<in> set h" by (metis in_set_conv_decomp append_Nil2)
      with assms(2) show False by simp
    next
      case (Cons b us')
      with us(2) have b: "b = c" by simp
      show False
      proof (cases us' rule: rev_cases)
        case Nil
        with us(1) Cons b have "e = h" by simp
        with assms(3) show False by simp
      next
        case (snoc vs v)
        with us(1) Cons b have "e @ [c] = (h @ c # vs) @ [v]" by simp
        then have "e = h @ c # vs" by (simp only: append1_eq_conv)
        with assms(1) show False by simp
      qed
    qed
  qed
qed

lemma replace_past_hostname:
  assumes "c \<notin> set e" and "c \<notin> set h" and "\<not> suffix e h"
  shows "replace (h @ c # x) (e @ [c]) rep = h @ replace (c # x) (e @ [c]) rep"
  using assms(2,3)
proof (induction h)
  case Nil
  then show ?case by simp
next
  case (Cons a h)
  from Cons.prems have 1: "c \<notin> set h" and 2: "\<not> suffix e h"
    by (auto simp: suffix_Cons)
  have "\<not> prefix (e @ [c]) ((a # h) @ c # x)"
    using assms(1) Cons.prems by (rule no_match_across_hostname)
  then have "replace ((a # h) @ c # x) (e @ [c]) rep = a # replace (h @ c # x) (e @ [c]) rep"
    by simp
  with Cons.IH[OF 1 2] show ?case by simp
qed

lemma trim_whole_behind_hostname:
  assumes "startsWith z ''/''" and "4 \<le> length w"
  shows "\<exists>y. trimArchiveSuffix (w @ z) = w @ y \<and> startsWith y ''/'' \<and>
             \<not> endsWithArchiveSeparator (w @ y)"
proof (cases "endsWithArchiveSeparator (w @ z)")
  case False
  with assms(1) show ?thesis by (auto simp: trimArchiveSuffix_def)
next
  case True
  from assms(1) have zne: "z \<noteq> []" by (auto simp: startsWith_def)
  then have "length (w @ z) \<noteq> 4" using assms(2) by (cases z) auto
  with True obtain ext where ext: "ext \<in> set KNOWN_ARCHIVE_EXTENSIONS"
    "suffix (ext @ [ARCHIVE_SEPARATOR]) (w @ z)"
    by (auto simp: endsWithArchiveSeparator_iff)
  from suffix_behind_slash[OF ext(2) assms(1) extension_without_slash[OF ext(1)]]
  obtain v where z: "z = v @ ext @ [ARCHIVE_SEPARATOR]" by (auto simp: suffix_def)
  define y where "y = v @ ext"
  have zy: "z = y @ [ARCHIVE_SEPARATOR]" using z by (simp add: y_def)
  from ext(1) have en: "ext \<noteq> []" "last ext \<noteq> ARCHIVE_SEPARATOR"
    by (auto simp: KNOWN_ARCHIVE_EXTENSIONS_def ARCHIVE_SEPARATOR_def)
  then have yne: "y \<noteq> []" and ly: "last y \<noteq> ARCHIVE_SEPARATOR" by (simp_all add: y_def)
  from assms(1) zy yne have ys: "startsWith y ''/''"
    by (cases y) (auto simp: startsWith_def)
  have tr: "trimArchiveSuffix (w @ z) = w @ y"
    using True zy by (simp add: trimArchiveSuffix_def)
  have "\<not> endsWithArchiveSeparator (w @ y)"
    using endsWithArchiveSeparator_last[of "w @ y"] yne ly by auto
  with tr ys show ?thesis by blast
qed

lemma decode_whole_remote:
  assumes "CHR ''/'' \<notin> set h"
    and "\<not> list_ex (\<lambda>ext. endsWith h (ext @ [ARCHIVE_SEPARATOR])) KNOWN_ARCHIVE_EXTENSIONS"
    and "startsWith x ''/''"
  shows "\<exists>y. archiveDecode Posix (REMOTE_PATH_URI_PREFIX @ h @ x) = REMOTE_PATH_URI_PREFIX @ h @ y \<and>
             startsWith y ''/'' \<and>
             \<not> endsWithArchiveSeparator (REMOTE_PATH_URI_PREFIX @ h @ y)"
proof (cases "ARCHIVE_SEPARATOR \<in> set (REMOTE_PATH_URI_PREFIX @ h @ x)")
  case False
  then have "\<not> endsWithArchiveSeparator (REMOTE_PATH_URI_PREFIX @ h @ x)"
    by (rule no_separator_not_endsWithArchiveSeparator)
  with False assms(3) show ?thesis by (auto simp: archiveDecode_no_separator)
next
  case True
  from assms(2) have nj: "\<not> suffix ''.jar!'' h" and nz: "\<not> suffix ''.zip!'' h"
    by (auto simp: KNOWN_ARCHIVE_EXTENSIONS_def endsWith_def ARCHIVE_SEPARATOR_def)
  have past: "replace (REMOTE_PATH_URI_PREFIX @ h @ t) (e @ ''/'') e =
              REMOTE_PATH_URI_PREFIX @ h @ replace t (e @ ''/'') e"
    if "e = ''.jar!'' \<or> e = ''.zip!''" and "startsWith t ''/''" for e t
  proof -
    from that(2) obtain t' where t: "t = CHR ''/'' # t'" by (auto simp: startsWith_def prefix_def)
    from that(1) have e: "CHR ''/'' \<notin> set e" "\<not> suffix e h" "hd (e @ ''/'') = CHR ''.''"
      using nj nz by auto
    have "replace (REMOTE_PATH_URI_PREFIX @ (h @ t)) (e @ ''/'') e =
          REMOTE_PATH_URI_PREFIX @ replace (h @ t) (e @ ''/'') e"
      using e(3) by (intro replace_past_other_chars) (simp_all add: REMOTE_PATH_URI_PREFIX_def)
    moreover have "replace (h @ t) (e @ ''/'') e = h @ replace t (e @ ''/'') e"
      unfolding t using e(1) assms(1) e(2) by (rule replace_past_hostname)
    ultimately show ?thesis by simp
  qed
  define x1 where "x1 = replace x (''.jar!'' @ ''/'') ''.jar!''"
  define x2 where "x2 = replace x1 (''.zip!'' @ ''/'') ''.zip!''"
  have s1: "startsWith x1 ''/''"
    unfolding x1_def using assms(3) by (intro startsWith_slash_replace_delete) simp_all
  have s2: "startsWith x2 ''/''"
    unfolding x2_def using s1 by (intro startsWith_slash_replace_delete) simp_all
  have "archiveDecode Posix (REMOTE_PATH_URI_PREFIX @ h @ x) =
        trimArchiveSuffix
          (replace (replace (REMOTE_PATH_URI_PREFIX @ h @ x) (''.jar!'' @ ''/'') ''.jar!'')
             (''.zip!'' @ ''/'') ''.zip!'')"
    using True by (simp add: archiveDecode_def indexOf_char_neg KNOWN_ARCHIVE_EXTENSIONS_def
        ARCHIVE_SEPARATOR_def)
  also have "\<dots> = trimArchiveSuffix ((REMOTE_PATH_URI_PREFIX @ h) @ x2)"
    using past[of "''.jar!''" x, OF _ assms(3)] past[of "''.zip!''" x1, OF _ s1]
    by (simp add: x1_def x2_def)
  finally have d: "archiveDecode Posix (REMOTE_PATH_URI_PREFIX @ h @ x) =
      trimArchiveSuffix ((REMOTE_PATH_URI_PREFIX @ h) @ x2)" .
  have "4 \<le> length (REMOTE_PATH_URI_PREFIX @ h)" by (simp add: REMOTE_PATH_URI_PREFIX_def)
  from trim_whole_behind_hostname[OF s2 this] d show ?thesis by auto
qed

text \<open>
  \<open>join\<close> keeps the hostname as well, unless the hostname ends with an archive extension
  and the archive separator.
\<close>

lemma join_keeps_hostname:
  assumes "parse r = Inr pr" and "isRemote r" and "hostname pr = Some h"
    and "\<not> list_ex (\<lambda>ext. endsWith h (ext @ [ARCHIVE_SEPARATOR])) KNOWN_ARCHIVE_EXTENSIONS"
    and "startsWith (njoin Posix (map (archiveEncode Posix) (path pr # rel))) ''/''"
  shows "\<exists>u p. join njoin r rel = Inr u \<and> parse u = Inr \<lparr>hostname = Some h, path = p\<rparr>"
proof -
  define x where "x = njoin Posix (map (archiveEncode Posix) (path pr # rel))"
  from parse_remote_shape[OF assms(1,2)] assms(3) have
    h: "h \<noteq> []" "CHR ''/'' \<notin> set h" by auto
  have legal: "testForIllegalUri r = Inr ()" using assms(1) by (rule parse_ok_legal)
  then have "\<not> endsWithArchiveSeparator r"
    by (auto simp: testForIllegalUri_def split: if_splits)
  then have d: "pathModuleFor r = Inr Posix" using assms(2) remote_is_posix by blast
  have pr: "parseRemoteUri r = Inr (h, path pr)"
    using assms(1,2,3) h by (simp add: parseRemoteUri_def)
  from assms(5) have xs: "startsWith x ''/''" by (simp add: x_def)
  then have xne: "x \<noteq> []" by (auto simp: startsWith_def)
  from decode_whole_remote[OF h(2) assms(4) xs] obtain y where
    y: "archiveDecode Posix (REMOTE_PATH_URI_PREFIX @ h @ x) = REMOTE_PATH_URI_PREFIX @ h @ y"
       "startsWith y ''/''" "\<not> endsWithArchiveSeparator (REMOTE_PATH_URI_PREFIX @ h @ y)"
    by blast
  have xeq: "njoin Posix (archiveEncode Posix (path pr) # map (archiveEncode Posix) rel) = x"
    by (simp add: x_def)
  have c: "createRemoteUri h x = Inr (REMOTE_PATH_URI_PREFIX @ h @ x)"
    using xne by (simp add: createRemoteUri_def REMOTE_PATH_URI_PREFIX_def)
  have j: "join njoin r rel = Inr (REMOTE_PATH_URI_PREFIX @ h @ y)"
    using legal d assms(2) pr c y(1) by (simp add: join_def xeq)
  from y(2) obtain y' where y': "y = CHR ''/'' # y'" by (auto simp: startsWith_def prefix_def)
  have "firstIndex ''/'' (h @ y) = Some (length h)"
    using firstIndex_char_append[OF h(2)] y' by simp
  then have "parse (REMOTE_PATH_URI_PREFIX @ h @ y) = Inr \<lparr>hostname = Some h, path = y\<rparr>"
    using h(1) y(3) by (simp add: parse_def startsWith_def indexOf_def)
  with j show ?thesis by blast
qed

text \<open>
  Claim C10.  \<open>normalize\<close>, \<open>dirname\<close> and \<open>resolve\<close> decode the path and then put the
  hostname in front of it.  \<open>join\<close> puts the hostname in front first and decodes the whole
  URI.  When the hostname ends with an archive extension and the archive separator, the
  decoder removes the separator between the hostname and the path, and the result has
  another hostname.
\<close>

theorem join_alters_hostname:
  "getHostname ''nuclide://h.zip!/x'' = Inr ''h.zip!'' \<and>
   join node_join ''nuclide://h.zip!/x'' [''y''] = Inr ''nuclide://h.zip!x/y'' \<and>
   getHostname ''nuclide://h.zip!x/y'' = Inr ''h.zip!x'' \<and>
   normalize node_normalize ''nuclide://h.zip!/x'' = Inr ''nuclide://h.zip!/x''"
  by code_simp

section \<open>Idempotence of normalize\<close>




section \<open>Containment\<close>

lemma isArchiveSeparator_char:
  "isArchiveSeparator s i \<Longrightarrow> 0 \<le> i \<and> nat i < length s \<and> s ! nat i = ARCHIVE_SEPARATOR"
  by (auto simp: isArchiveSeparator_def charAt_def split: if_splits)

lemma isArchiveSeparator_after_extension:
  assumes "hasKnownArchiveExtension p"
  shows "isArchiveSeparator (p @ ARCHIVE_SEPARATOR # t) (int (length p))"
proof -
  from assms obtain ext where ext: "ext \<in> set KNOWN_ARCHIVE_EXTENSIONS" "suffix ext p"
    by (auto simp: hasKnownArchiveExtension_def endsWith_def list_ex_iff)
  then obtain u where u: "p = u @ ext" by (auto simp: suffix_def)
  have "firstIndex ext (drop (length u) (p @ ARCHIVE_SEPARATOR # t)) = Some 0"
    using u firstIndex_at_prefix[of ext "ARCHIVE_SEPARATOR # t"] by simp
  then have "indexOf (p @ ARCHIVE_SEPARATOR # t) ext (int (length p) - int (length ext))
      = int (length p) - int (length ext)"
    using u by (simp add: indexOf_def)
  with ext(1) show ?thesis
    by (auto simp: isArchiveSeparator_def charAt_def list_ex_iff Let_def)
qed

lemma endsWithSeparator_legal:
  "testForIllegalUri p = Inr () \<Longrightarrow> pathModuleFor p = Inr d \<Longrightarrow>
   endsWithSeparator p = Inr (endsWith p [sep d])"
  by (simp add: endsWithSeparator_def)

lemma contains_shorter:
  assumes "testForIllegalUri parent = Inr ()" "testForIllegalUri child = Inr ()"
    and "pathModuleFor parent = Inr dp" and "length child < length parent"
  shows "contains parent child = Inr (parent = child @ [sep dp])"
proof -
  have na: "\<not> isArchiveSeparator child (int (length parent))"
    using assms(4) by (simp add: isArchiveSeparator_def)
  have "(\<not> int (length child) < int (length parent) - 1 \<and> startsWith parent child \<and>
         endsWith parent [sep dp]) \<longleftrightarrow> parent = child @ [sep dp]"
  proof
    assume a: "\<not> int (length child) < int (length parent) - 1 \<and> startsWith parent child \<and>
         endsWith parent [sep dp]"
    then obtain t where t: "parent = child @ t" by (auto simp: startsWith_def prefix_def)
    with a assms(4) have "length t = 1" by (cases t) auto
    then obtain c where "t = [c]" by (cases t) auto
    with a t show "parent = child @ [sep dp]" by (simp add: endsWith_def)
  next
    assume "parent = child @ [sep dp]"
    then show "\<not> int (length child) < int (length parent) - 1 \<and> startsWith parent child \<and>
         endsWith parent [sep dp]" by (simp add: startsWith_def endsWith_def)
  qed
  then show ?thesis
    using assms na by (auto simp: contains_def endsWithSeparator_legal)
qed

lemma contains_longer:
  assumes "testForIllegalUri parent = Inr ()" "testForIllegalUri child = Inr ()"
    and "pathModuleFor parent = Inr dp" and "pathModuleFor child = Inr dc"
    and "length parent \<le> length child"
  shows "contains parent child =
     Inr (startsWith child parent \<and>
          (endsWith parent [sep dp] \<or> length parent = length child \<or>
           isArchiveSeparator child (int (length parent)) \<or>
           startsWith (drop (length parent) child) [sep dc]))"
  using assms by (auto simp: contains_def endsWithSeparator_legal)

lemma length_split_on: "length (split_on d s) = Suc (length (filter (\<lambda>c. c = d) s))"
proof (induction s)
  case Nil
  then show ?case by simp
next
  case (Cons c cs)
  then have "split_on d cs \<noteq> []" by auto
  with Cons show ?case by (cases "split_on d cs") auto
qed

lemma firstIndex_disjoint:
  "pat \<noteq> [] \<Longrightarrow> set t \<inter> set pat = {} \<Longrightarrow> firstIndex pat t = None"
proof (induction t)
  case Nil
  then show ?case by simp
next
  case (Cons c cs)
  have "\<not> prefix pat (c # cs)"
  proof
    assume "prefix pat (c # cs)"
    with Cons.prems(1) have "hd pat = c" by (cases pat) auto
    with Cons.prems show False by (cases pat) auto
  qed
  with Cons show ?case by simp
qed

lemma firstIndex_append_disjoint:
  assumes "pat \<noteq> []" and "set t \<inter> set pat = {}" and "firstIndex pat p = None"
  shows "firstIndex pat (p @ t) = None"
  using assms(3)
proof (induction p)
  case Nil
  then show ?case using assms(1,2) by (simp add: firstIndex_disjoint)
next
  case (Cons a p)
  from Cons.prems have np: "\<not> prefix pat (a # p)" and rest: "firstIndex pat p = None"
    by (auto split: if_splits)
  have "\<not> prefix pat ((a # p) @ t)"
  proof
    assume "prefix pat ((a # p) @ t)"
    then have "prefix pat (a # p) \<or> (\<exists>us. pat = (a # p) @ us \<and> prefix us t)"
      by (simp only: prefix_append)
    with np obtain us where us: "pat = (a # p) @ us" "prefix us t"
      by blast
    with np have "us \<noteq> []" by auto
    then have "hd us \<in> set us" by simp
    with us have "hd us \<in> set pat" "hd us \<in> set t" by (auto dest: set_mono_prefix)
    with assms(2) show False by auto
  qed
  with Cons.IH[OF rest] show ?case by simp
qed

lemma firstIndex_append_keeps:
  "firstIndex pat p \<noteq> None \<Longrightarrow> firstIndex pat (p @ t) \<noteq> None"
proof (induction p)
  case Nil
  then show ?case by (cases t) (auto split: if_splits)
next
  case (Cons a p)
  show ?case
  proof (cases "prefix pat (a # p)")
    case True
    then have "prefix pat ((a # p) @ t)" by (rule prefix_prefix)
    then show ?thesis by simp
  next
    case False
    with Cons show ?thesis by (auto split: if_splits)
  qed
qed

lemma hasScheme_iff: "indexOf s ''://'' 0 > - 1 \<longleftrightarrow> firstIndex ''://'' s \<noteq> None"
  by (auto simp: indexOf_def split: option.splits)

lemma not_endsWithArchiveSeparator_x: "\<not> endsWithArchiveSeparator (t @ ''x'')"
  using endsWithArchiveSeparator_last[of "t @ ''x''"] by (auto simp: ARCHIVE_SEPARATOR_def)

lemma not_atom_child:
  assumes "\<not> isAtomUri p" and "t = ''x'' \<or> (t = [c, CHR ''x''] \<and> \<not> endsWith p [c])"
  shows "\<not> isAtomUri (p @ t)"
proof
  assume "isAtomUri (p @ t)"
  then have "prefix ''atom://'' p \<or> (\<exists>us. ''atom://'' = p @ us \<and> prefix us t)"
    unfolding isAtomUri_def startsWith_def by (simp only: prefix_append)
  with assms(1) obtain us where us: "''atom://'' = p @ us" "prefix us t"
    unfolding isAtomUri_def startsWith_def by blast
  with assms(1) have "us \<noteq> []" by (auto simp: isAtomUri_def startsWith_def)
  note us = us this
  from us(2,3) assms(2) consider "us = ''x''" | "us = [c]" "\<not> endsWith p [c]" | "us = [c, CHR ''x'']"
    by (cases us) (auto simp: prefix_Cons)
  then show False
  proof cases
    case 1
    with us(1) have "last ''atom://'' = CHR ''x''" by (metis last_snoc)
    then show ?thesis by simp
  next
    case 2
    with us(1) have "endsWith p [c] \<or> p = []"
      by (cases p rule: rev_cases) (auto simp: endsWith_def)
    with 2 us(1) show ?thesis by (auto simp: endsWith_def suffix_def)
  next
    case 3
    with us(1) have "''atom://'' = (p @ [c]) @ ''x''" by simp
    then have "last ''atom://'' = CHR ''x''" by (metis last_snoc)
    then show ?thesis by simp
  qed
qed

lemma charAt_append_left: "i < int (length p) \<Longrightarrow> charAt (p @ t) i = charAt p i"
  by (auto simp: charAt_def nth_append)

lemma drive_prefix_append:
  assumes "charAt p 1 = '':'' \<and> charAt p 2 = [BACKSLASH]"
  shows "charAt (p @ t) 1 = '':'' \<and> charAt (p @ t) 2 = [BACKSLASH]"
proof -
  from assms have "2 < int (length p)" by (auto simp: charAt_def split: if_splits)
  then show ?thesis using assms by (simp add: charAt_append_left)
qed

lemma no_drive_prefix_append_slash:
  assumes "\<not> (charAt p 1 = '':'' \<and> charAt p 2 = [BACKSLASH])"
  shows "\<not> (charAt (p @ ''/x'') 1 = '':'' \<and> charAt (p @ ''/x'') 2 = [BACKSLASH])"
proof (cases "2 < int (length p)")
  case True
  then show ?thesis using assms by (simp add: charAt_append_left)
next
  case False
  then consider "length p = 0" | "length p = 1" | "length p = 2" by linarith
  then show ?thesis
    by cases (auto simp: charAt_def nth_append BACKSLASH_def)
qed

lemma child_dialect:
  assumes "pathModuleFor p = Inr d" and "\<not> endsWith p [sep d]"
  shows "pathModuleFor (p @ [sep d] @ ''x'') = Inr d"
proof (cases d)
  case Posix
  let ?c = "p @ ''/x''"
  have ne: "\<not> endsWithArchiveSeparator ?c"
    using not_endsWithArchiveSeparator_x[of "p @ ''/''"] by simp
  consider (a) "startsWith p ''/''" | (b) "firstIndex ''://'' p \<noteq> None"
    | (c) "\<not> (charAt p 1 = '':'' \<and> charAt p 2 = [BACKSLASH])"
          "\<not> length (split_on BACKSLASH p) > length (split_on (CHR ''/'') p)"
    using assms(1) Posix
    by (auto simp: pathModuleFor_def hasScheme_iff BACKSLASH_def split: if_splits)
  then have "pathModuleFor ?c = Inr Posix"
  proof cases
    case a
    then have "startsWith ?c ''/''" by (auto simp: startsWith_def prefix_def)
    with ne show ?thesis by (simp add: pathModuleFor_def)
  next
    case b
    then have "firstIndex ''://'' ?c \<noteq> None" by (rule firstIndex_append_keeps)
    with ne show ?thesis by (simp add: pathModuleFor_def hasScheme_iff)
  next
    case c
    from c(2) have "\<not> length (split_on BACKSLASH ?c) > length (split_on (CHR ''/'') ?c)"
      by (simp add: length_split_on BACKSLASH_def)
    with ne no_drive_prefix_append_slash[OF c(1)] show ?thesis
      by (auto simp: pathModuleFor_def BACKSLASH_def)
  qed
  with Posix show ?thesis by simp
next
  case Win32
  let ?c = "p @ [BACKSLASH, CHR ''x'']"
  have ne: "\<not> endsWithArchiveSeparator ?c"
    using not_endsWithArchiveSeparator_x[of "p @ [BACKSLASH]"] by simp
  from assms(1) Win32 have na: "\<not> startsWith p ''/''" and nb: "firstIndex ''://'' p = None"
    and cw: "(charAt p 1 = '':'' \<and> charAt p 2 = [BACKSLASH]) \<or>
             length (split_on BACKSLASH p) > length (split_on (CHR ''/'') p)"
    by (auto simp: pathModuleFor_def hasScheme_iff BACKSLASH_def split: if_splits)
  from cw have "p \<noteq> []" by (auto simp: charAt_def)
  with na have na': "\<not> startsWith ?c ''/''"
    by (cases p) (auto simp: startsWith_def)
  have nb': "firstIndex ''://'' ?c = None"
    using nb by (intro firstIndex_append_disjoint) (auto simp: BACKSLASH_def)
  have cw': "(charAt ?c 1 = '':'' \<and> charAt ?c 2 = [BACKSLASH]) \<or>
             length (split_on BACKSLASH ?c) > length (split_on (CHR ''/'') ?c)"
    using cw drive_prefix_append[of p "[BACKSLASH, CHR ''x'']"]
    by (auto simp: length_split_on BACKSLASH_def)
  from ne na' nb' cw' have "pathModuleFor ?c = Inr Win32"
    by (auto simp: pathModuleFor_def hasScheme_iff BACKSLASH_def)
  with Win32 show ?thesis by (simp add: BACKSLASH_def)
qed

lemma contains_child:
  assumes "testForIllegalUri p = Inr ()" and "pathModuleFor p = Inr d"
  shows "contains p (p @ (if endsWith p [sep d] then [] else [sep d]) @ ''x'') = Inr True"
proof -
  from assms(1) have np: "\<not> isAtomUri p"
    by (auto simp: testForIllegalUri_def split: if_splits)
  show ?thesis
  proof (cases "endsWith p [sep d]")
    case True
    let ?c = "p @ ''x''"
    have "\<not> isAtomUri ?c" using np by (intro not_atom_child[where c = "sep d"]) auto
    then have lc: "testForIllegalUri ?c = Inr ()"
      using not_endsWithArchiveSeparator_x[of p] by (simp add: testForIllegalUri_def)
    then obtain dc where dc: "pathModuleFor ?c = Inr dc" using legal_pathModuleFor by blast
    have "contains p ?c = Inr True"
      using contains_longer[OF assms(1) lc assms(2) dc] True by (simp add: startsWith_def)
    with True show ?thesis by simp
  next
    case False
    let ?c = "p @ [sep d] @ ''x''"
    have "\<not> isAtomUri (p @ [sep d, CHR ''x''])"
      using np False by (intro not_atom_child[where c = "sep d"]) auto
    moreover have "\<not> endsWithArchiveSeparator ?c"
      using not_endsWithArchiveSeparator_x[of "p @ [sep d]"] by simp
    ultimately have lc: "testForIllegalUri ?c = Inr ()"
      by (simp add: testForIllegalUri_def)
    have dc: "pathModuleFor ?c = Inr d" using assms(2) False by (rule child_dialect)
    have "contains p ?c = Inr True"
      using contains_longer[OF assms(1) lc assms(2) dc]
      by (simp add: startsWith_def)
    with False show ?thesis by simp
  qed
qed

lemma isArchiveSeparator_startsWith:
  assumes "isArchiveSeparator c (int n)"
  shows "startsWith (drop n c) [ARCHIVE_SEPARATOR]"
proof -
  from isArchiveSeparator_char[OF assms] have n: "n < length c" "c ! n = ARCHIVE_SEPARATOR"
    by auto
  have "drop n c = c ! n # drop (Suc n) c" using Cons_nth_drop_Suc[OF n(1)] by simp
  with n(2) show ?thesis by (simp add: startsWith_def)
qed

lemma isArchiveSeparator_at_boundary:
  assumes "hasKnownArchiveExtension p" and "startsWith c p"
    and "startsWith (drop (length p) c) [ARCHIVE_SEPARATOR]"
  shows "isArchiveSeparator c (int (length p))"
proof -
  from assms(2) obtain t where t: "c = p @ t" by (auto simp: startsWith_def prefix_def)
  with assms(3) obtain t' where "t = ARCHIVE_SEPARATOR # t'"
    by (auto simp: startsWith_def prefix_def)
  with t assms(1) show ?thesis by (simp add: isArchiveSeparator_after_extension)
qed

lemma firstIndex_Some_0_iff: "pat \<noteq> [] \<Longrightarrow> firstIndex pat s = Some 0 \<longleftrightarrow> prefix pat s"
  by (cases s) auto

lemma indexOf_at_start:
  assumes "pat \<noteq> []" and "k \<le> length s"
  shows "indexOf s pat (int k) = int k \<longleftrightarrow> prefix pat (drop k s)"
proof (cases "firstIndex pat (drop k s)")
  case None
  then have "\<not> prefix pat (drop k s)"
    using firstIndex_Some_0_iff[OF assms(1), of "drop k s"] by simp
  with None assms(2) show ?thesis by (simp add: indexOf_def)
next
  case (Some j)
  then have "indexOf s pat (int k) = int (k + j)" using assms(2) by (simp add: indexOf_def)
  moreover have "j = 0 \<longleftrightarrow> prefix pat (drop k s)"
    using firstIndex_Some_0_iff[OF assms(1), of "drop k s"] Some by auto
  ultimately show ?thesis by auto
qed

lemma suffix_take_iff:
  assumes "length e \<le> i" and "i \<le> length s"
  shows "suffix e (take i s) \<longleftrightarrow> prefix e (drop (i - length e) s)"
proof -
  define a where "a = take (i - length e) s"
  define b where "b = take (length e) (drop (i - length e) s)"
  have "take ((i - length e) + length e) s = a @ b"
    unfolding a_def b_def by (simp only: take_add)
  moreover have "(i - length e) + length e = i" using assms(1) by simp
  ultimately have t: "take i s = a @ b" by simp
  have lb: "length b = length e" using assms by (simp add: b_def)
  have "suffix e (a @ b) \<longleftrightarrow> b = e"
  proof
    assume "suffix e (a @ b)"
    then obtain u where u: "a @ b = u @ e" by (auto simp: suffix_def)
    with lb show "b = e" by (simp add: append_eq_append_conv)
  next
    assume "b = e"
    then show "suffix e (a @ b)" by (simp add: suffix_def)
  qed
  also have "b = e \<longleftrightarrow> prefix e (drop (i - length e) s)"
    by (simp add: b_def prefix_take_iff)
  finally show ?thesis using t by simp
qed

lemma isArchiveSeparator_exact:
  assumes "i \<noteq> 3"
  shows "isArchiveSeparator s (int i) \<longleftrightarrow>
         i < length s \<and> s ! i = ARCHIVE_SEPARATOR \<and> hasKnownArchiveExtension (take i s)"
proof (cases "i < length s \<and> s ! i = ARCHIVE_SEPARATOR")
  case False
  then show ?thesis by (auto simp: isArchiveSeparator_def charAt_def)
next
  case True
  have atext: "(indexOf s ext (int i - int (length ext)) = int i - int (length ext)) \<longleftrightarrow>
             suffix ext (take i s)" if e: "ext \<in> set KNOWN_ARCHIVE_EXTENSIONS" for ext
  proof -
    from e have l: "length ext = 4" and ne: "ext \<noteq> []"
      by (auto simp: KNOWN_ARCHIVE_EXTENSIONS_def)
    show ?thesis
    proof (cases "4 \<le> i")
      case False
      with assms have "int i - int (length ext) < - 1" using l by simp
      then have "indexOf s ext (int i - int (length ext)) \<noteq> int i - int (length ext)"
        using indexOf_lower[of s ext "int i - int (length ext)"] by linarith
      moreover have "\<not> suffix ext (take i s)"
      proof
        assume "suffix ext (take i s)"
        then have "length ext \<le> length (take i s)" by (rule suffix_length_le)
        with l False show False by simp
      qed
      ultimately show ?thesis by simp
    next
      case f: True
      then have k: "int i - int (length ext) = int (i - length ext)" using l by simp
      have "i - length ext \<le> length s" using True by linarith
      from indexOf_at_start[OF ne this]
      have "(indexOf s ext (int (i - length ext)) = int (i - length ext)) \<longleftrightarrow>
            prefix ext (drop (i - length ext) s)" .
      also have "\<dots> \<longleftrightarrow> suffix ext (take i s)"
        using suffix_take_iff[of ext i s] f l True by simp
      finally show ?thesis by (simp only: k)
    qed
  qed
  have "list_ex (\<lambda>ext. indexOf s ext (int i - int (length ext)) = int i - int (length ext))
          KNOWN_ARCHIVE_EXTENSIONS =
        list_ex (\<lambda>ext. suffix ext (take i s)) KNOWN_ARCHIVE_EXTENSIONS"
    by (rule list_ex_cong[OF refl]) (rule atext)
  then have "list_ex (\<lambda>ext. let extStart = int i - int (length ext)
                     in indexOf s ext extStart = extStart) KNOWN_ARCHIVE_EXTENSIONS
        \<longleftrightarrow> hasKnownArchiveExtension (take i s)"
    by (simp only: hasKnownArchiveExtension_def Let_def endsWith_def)
  with True show ?thesis by (simp add: isArchiveSeparator_def charAt_def)
qed

lemma startsWith_drop_char:
  "startsWith (drop n c) [x] \<longleftrightarrow> n < length c \<and> c ! n = x"
proof (cases "n < length c")
  case True
  then have "drop n c = c ! n # drop (Suc n) c" by (simp add: Cons_nth_drop_Suc)
  with True show ?thesis by (auto simp: startsWith_def)
next
  case False
  then show ?thesis by (simp add: startsWith_def)
qed

lemma contains_exact:
  assumes "testForIllegalUri parent = Inr ()" "testForIllegalUri child = Inr ()"
    and "pathModuleFor parent = Inr dp" and "pathModuleFor child = Inr dc"
    and "length parent \<le> length child"
    and "\<not> (length parent = 3 \<and> startsWith (drop 3 child) [ARCHIVE_SEPARATOR])"
  shows "contains parent child =
     Inr (startsWith child parent \<and>
          (length parent = length child \<or> endsWith parent [sep dp] \<or>
           startsWith (drop (length parent) child) [sep dc] \<or>
           (hasKnownArchiveExtension parent \<and>
            startsWith (drop (length parent) child) [ARCHIVE_SEPARATOR])))"
proof (cases "startsWith child parent")
  case False
  then show ?thesis using contains_longer[OF assms(1-5)] by simp
next
  case True
  then have tk: "take (length parent) child = parent"
    by (simp add: startsWith_def prefix_take_iff)
  have "isArchiveSeparator child (int (length parent)) \<longleftrightarrow>
        hasKnownArchiveExtension parent \<and>
        startsWith (drop (length parent) child) [ARCHIVE_SEPARATOR]"
  proof (cases "length parent = 3")
    case False
    from isArchiveSeparator_exact[OF False, of child] tk show ?thesis
      by (auto simp: startsWith_drop_char)
  next
    case l: True
    with assms(6) have n: "\<not> startsWith (drop (length parent) child) [ARCHIVE_SEPARATOR]"
      by simp
    then have "\<not> isArchiveSeparator child (int (length parent))"
      using isArchiveSeparator_startsWith by blast
    with n show ?thesis by simp
  qed
  then show ?thesis using contains_longer[OF assms(1-5)] True by auto
qed

lemma firstIndex_missing_char:
  "c \<in> set pat \<Longrightarrow> c \<notin> set s \<Longrightarrow> firstIndex pat s = None"
proof (induction s)
  case Nil
  then show ?case by auto
next
  case (Cons x xs)
  have "\<not> prefix pat (x # xs)"
  proof
    assume "prefix pat (x # xs)"
    then have "set pat \<subseteq> set (x # xs)" by (rule set_mono_prefix)
    with Cons.prems show False by auto
  qed
  with Cons show ?case by simp
qed

lemma replace_not_found: "firstIndex pat s = None \<Longrightarrow> replace s pat rep = s"
proof (induction s)
  case Nil
  then show ?case by (simp split: if_splits)
next
  case (Cons x xs)
  then show ?case by (auto split: if_splits)
qed

lemma replace_decomp:
  assumes "pat \<noteq> []"
  shows "firstIndex pat s \<noteq> None \<Longrightarrow>
         \<exists>a b. s = a @ pat @ b \<and> replace s pat rep = a @ rep @ b"
proof (induction s)
  case Nil
  with assms show ?case by simp
next
  case (Cons x xs)
  show ?case
  proof (cases "prefix pat (x # xs)")
    case True
    then obtain b where b: "x # xs = pat @ b" by (auto simp: prefix_def)
    have "replace (pat @ b) pat rep = rep @ b"
      using assms by (rule replace_at_prefix)
    with b have "x # xs = [] @ pat @ b \<and> replace (x # xs) pat rep = [] @ rep @ b" by simp
    then show ?thesis by blast
  next
    case False
    with Cons.prems have "firstIndex pat xs \<noteq> None" by (auto split: if_splits)
    from Cons.IH[OF this] obtain a b where
      ab: "xs = a @ pat @ b" "replace xs pat rep = a @ rep @ b" by blast
    with False have "x # xs = (x # a) @ pat @ b \<and>
        replace (x # xs) pat rep = (x # a) @ rep @ b" by simp
    then show ?thesis by blast
  qed
qed

lemma replace_append_found:
  assumes "pat \<noteq> []"
  shows "firstIndex pat s \<noteq> None \<Longrightarrow> replace (s @ t) pat rep = replace s pat rep @ t"
proof (induction s)
  case Nil
  with assms show ?case by simp
next
  case (Cons x xs)
  show ?case
  proof (cases "prefix pat (x # xs)")
    case True
    then obtain b where b: "x # xs = pat @ b" by (auto simp: prefix_def)
    have "replace (pat @ b @ t) pat rep = rep @ b @ t"
      using assms by (rule replace_at_prefix)
    moreover have "replace (pat @ b) pat rep = rep @ b"
      using assms by (rule replace_at_prefix)
    ultimately show ?thesis using b by simp
  next
    case False
    with Cons.prems have f: "firstIndex pat xs \<noteq> None" by (auto split: if_splits)
    have "\<not> prefix pat ((x # xs) @ t)"
    proof
      assume p: "prefix pat ((x # xs) @ t)"
      from f have "length pat \<le> length xs"
      proof (induction xs)
        case Nil
        with assms show ?case by simp
      next
        case (Cons y ys)
        then show ?case by (auto split: if_splits dest: prefix_length_le)
      qed
      then have "length pat \<le> length (x # xs)" by simp
      with p have "prefix pat (x # xs)"
        by (metis prefix_length_prefix prefixI)
      with False show False by simp
    qed
    with False Cons.IH[OF f] show ?thesis by simp
  qed
qed

lemma replace_append_disjoint:
  assumes "pat \<noteq> []" and "set t \<inter> set pat = {}"
  shows "replace (s @ t) pat rep = replace s pat rep @ t"
proof (cases "firstIndex pat s")
  case None
  then have "firstIndex pat (s @ t) = None"
    using assms by (intro firstIndex_append_disjoint)
  with None show ?thesis by (simp add: replace_not_found)
next
  case (Some k)
  then show ?thesis using replace_append_found[OF assms(1), of s t rep] by simp
qed

lemma archiveEncode_append:
  assumes "set t \<subseteq> {sep d, CHR ''x''}"
  shows "archiveEncode d (s @ t) = archiveEncode d s @ t"
proof -
  have t: "set t \<inter> set ''.jar!'' = {}" "set t \<inter> set ''.zip!'' = {}"
    "ARCHIVE_SEPARATOR \<notin> set t"
    using assms by (cases d; auto simp: ARCHIVE_SEPARATOR_def)+
  show ?thesis
  proof (cases "ARCHIVE_SEPARATOR \<in> set s")
    case False
    with t(3) show ?thesis by (simp add: archiveEncode_no_separator)
  next
    case True
    have "replace (replace (s @ t) ''.jar!'' (''.jar!'' @ [sep d])) ''.zip!'' (''.zip!'' @ [sep d])
        = replace (replace s ''.jar!'' (''.jar!'' @ [sep d]) @ t) ''.zip!'' (''.zip!'' @ [sep d])"
      using replace_append_disjoint[OF _ t(1), of s] by simp
    also have "\<dots> = replace (replace s ''.jar!'' (''.jar!'' @ [sep d])) ''.zip!''
        (''.zip!'' @ [sep d]) @ t"
      using replace_append_disjoint[OF _ t(2)] by simp
    finally show ?thesis
      using True by (simp add: archiveEncode_def indexOf_char_neg KNOWN_ARCHIVE_EXTENSIONS_def
          ARCHIVE_SEPARATOR_def)
  qed
qed

lemma delete_archiveEncode:
  "replace (replace (archiveEncode d s) (''.jar!'' @ [sep d]) ''.jar!'')
     (''.zip!'' @ [sep d]) ''.zip!'' = s"
proof (cases "ARCHIVE_SEPARATOR \<in> set s")
  case False
  then have "firstIndex (''.jar!'' @ [sep d]) s = None" "firstIndex (''.zip!'' @ [sep d]) s = None"
    by (auto intro!: firstIndex_missing_char[where c = ARCHIVE_SEPARATOR]
        simp: ARCHIVE_SEPARATOR_def)
  with False show ?thesis by (simp add: archiveEncode_no_separator replace_not_found)
next
  case True
  let ?e = "replace (replace s ''.jar!'' (''.jar!'' @ [sep d])) ''.zip!'' (''.zip!'' @ [sep d])"
  have enc: "archiveEncode d s = ?e"
    using True by (simp add: archiveEncode_def indexOf_char_neg KNOWN_ARCHIVE_EXTENSIONS_def
        ARCHIVE_SEPARATOR_def)
  have "replace ?e (''.jar!'' @ [sep d]) ''.jar!'' = replace s ''.zip!'' (''.zip!'' @ [sep d])"
    using jar_delete_zip_insert_commute[OF sep_not_dot, of "replace s ''.jar!'' (''.jar!'' @ [sep d])" d]
      replace_insert_delete[of "''.jar!''" s "[sep d]"] by simp
  moreover have "replace (replace s ''.zip!'' (''.zip!'' @ [sep d])) (''.zip!'' @ [sep d]) ''.zip!'' = s"
    using replace_insert_delete[of "''.zip!''" s "[sep d]"] by simp
  ultimately show ?thesis using enc by simp
qed

lemma suffix_single_snoc: "suffix [x] (zs @ [y]) \<longleftrightarrow> x = y"
  by (auto simp: suffix_def)

lemma suffix_char_append:
  assumes "b \<noteq> []"
  shows "suffix [x] (a @ b) \<longleftrightarrow> suffix [x] b"
proof -
  from assms obtain ys y where b: "b = ys @ [y]" by (cases b rule: rev_cases) auto
  have "suffix [x] ((a @ ys) @ [y]) \<longleftrightarrow> x = y" by (rule suffix_single_snoc)
  moreover have "suffix [x] (ys @ [y]) \<longleftrightarrow> x = y" by (rule suffix_single_snoc)
  ultimately show ?thesis using b by simp
qed

lemma suffix_replace_insert:
  assumes "pat \<noteq> []" and "\<not> suffix pat s"
  shows "suffix [x] (replace s pat (pat @ [c])) \<longleftrightarrow> suffix [x] s"
    and "c \<notin> set p2 \<Longrightarrow> suffix p2 (replace s pat (pat @ [c])) \<Longrightarrow> suffix p2 s"
proof -
  show "suffix [x] (replace s pat (pat @ [c])) \<longleftrightarrow> suffix [x] s"
  proof (cases "firstIndex pat s")
    case None
    then show ?thesis by (simp add: replace_not_found)
  next
    case (Some k)
    then obtain a b where ab: "s = a @ pat @ b"
      "replace s pat (pat @ [c]) = a @ (pat @ [c]) @ b"
      using replace_decomp[OF assms(1), of s "pat @ [c]"] by auto
    with assms(2) have bn: "b \<noteq> []" by (auto simp: suffix_def)
    have "suffix [x] ((a @ pat @ [c]) @ b) \<longleftrightarrow> suffix [x] ((a @ pat) @ b)"
      using suffix_char_append[OF bn, of x "a @ pat @ [c]"] suffix_char_append[OF bn, of x "a @ pat"]
      by simp
    with ab show ?thesis by simp
  qed
  show "suffix p2 s" if c: "c \<notin> set p2" and s: "suffix p2 (replace s pat (pat @ [c]))"
  proof (cases "firstIndex pat s")
    case None
    with s show ?thesis by (simp add: replace_not_found)
  next
    case (Some k)
    then obtain a b where ab: "s = a @ pat @ b"
      "replace s pat (pat @ [c]) = a @ (pat @ [c]) @ b"
      using replace_decomp[OF assms(1), of s "pat @ [c]"] by auto
    from s ab(2) have "suffix p2 ((a @ pat @ [c]) @ b)" by simp
    then have "suffix p2 b \<or> (\<exists>u. p2 = u @ b \<and> suffix u (a @ pat @ [c]))"
      by (simp only: suffix_append)
    then have "suffix p2 b"
    proof
      assume "suffix p2 b"
      then show ?thesis .
    next
      assume "\<exists>u. p2 = u @ b \<and> suffix u (a @ pat @ [c])"
      then obtain u where u: "p2 = u @ b" "suffix u ((a @ pat) @ [c])" by auto
      show ?thesis
      proof (cases u rule: rev_cases)
        case Nil
        with u(1) show ?thesis by simp
      next
        case (snoc v y)
        with u(2) have "suffix (v @ [y]) ((a @ pat) @ [c])" by simp
        then have "y = c" by (simp only: snoc_suffix_snoc)
        with snoc u(1) c show ?thesis by simp
      qed
    qed
    then have "suffix p2 ((a @ pat) @ b)" by (rule suffix_appendI)
    with ab(1) show ?thesis by simp
  qed
qed

lemma archiveEncode_endsWith:
  assumes "\<not> suffix ''.jar!'' q" and "\<not> suffix ''.zip!'' q"
  shows "endsWith (archiveEncode d q) [sep d] \<longleftrightarrow> endsWith q [sep d]"
proof (cases "ARCHIVE_SEPARATOR \<in> set q")
  case False
  then show ?thesis by (simp add: archiveEncode_no_separator)
next
  case True
  let ?j = "replace q ''.jar!'' (''.jar!'' @ [sep d])"
  have enc: "archiveEncode d q = replace ?j ''.zip!'' (''.zip!'' @ [sep d])"
    using True by (simp add: archiveEncode_def indexOf_char_neg KNOWN_ARCHIVE_EXTENSIONS_def
        ARCHIVE_SEPARATOR_def)
  have "sep d \<notin> set ''.zip!''" by (cases d) auto
  have nz: "\<not> suffix ''.zip!'' ?j"
  proof
    assume "suffix ''.zip!'' ?j"
    with \<open>sep d \<notin> set ''.zip!''\<close> have "suffix ''.zip!'' q"
      using suffix_replace_insert(2)[where pat = "''.jar!''" and s = q and c = "sep d"
          and ?p2.0 = "''.zip!''"] assms(1) by simp
    with assms(2) show False by simp
  qed
  have "suffix [sep d] (replace ?j ''.zip!'' (''.zip!'' @ [sep d])) \<longleftrightarrow> suffix [sep d] ?j"
    using nz by (intro suffix_replace_insert(1)) simp
  also have "\<dots> \<longleftrightarrow> suffix [sep d] q"
    using assms(1) by (intro suffix_replace_insert(1)) simp
  finally show ?thesis using enc by (simp add: endsWith_def)
qed

lemma replace_behind_hostname:
  assumes "CHR ''/'' \<notin> set h" and "\<not> suffix e h" and "e = ''.jar!'' \<or> e = ''.zip!''"
    and "startsWith t ''/''"
  shows "replace (REMOTE_PATH_URI_PREFIX @ h @ t) (e @ ''/'') e =
         REMOTE_PATH_URI_PREFIX @ h @ replace t (e @ ''/'') e"
proof -
  from assms(4) obtain t' where t: "t = CHR ''/'' # t'" by (auto simp: startsWith_def prefix_def)
  from assms(3) have e: "CHR ''/'' \<notin> set e" "hd (e @ ''/'') = CHR ''.''" by auto
  have "replace (REMOTE_PATH_URI_PREFIX @ (h @ t)) (e @ ''/'') e =
        REMOTE_PATH_URI_PREFIX @ replace (h @ t) (e @ ''/'') e"
    using e(2) by (intro replace_past_other_chars) (simp_all add: REMOTE_PATH_URI_PREFIX_def)
  moreover have "replace (h @ t) (e @ ''/'') e = h @ replace t (e @ ''/'') e"
    unfolding t using e(1) assms(1,2) by (rule replace_past_hostname)
  ultimately show ?thesis by simp
qed

lemma no_archive_suffix:
  assumes "\<not> endsWithArchiveSeparator (w @ s)"
  shows "\<not> suffix ''.jar!'' s" and "\<not> suffix ''.zip!'' s"
proof -
  have k: "\<not> suffix (ext @ [ARCHIVE_SEPARATOR]) (w @ s)"
    if "ext \<in> set KNOWN_ARCHIVE_EXTENSIONS" for ext
    using assms that by (auto simp: endsWithArchiveSeparator_iff)
  from k[of "''.jar''"] have "\<not> suffix ''.jar!'' (w @ s)"
    by (simp add: KNOWN_ARCHIVE_EXTENSIONS_def ARCHIVE_SEPARATOR_def)
  then show "\<not> suffix ''.jar!'' s" by (auto dest: suffix_appendI[of _ s w])
  from k[of "''.zip''"] have "\<not> suffix ''.zip!'' (w @ s)"
    by (simp add: KNOWN_ARCHIVE_EXTENSIONS_def ARCHIVE_SEPARATOR_def)
  then show "\<not> suffix ''.zip!'' s" by (auto dest: suffix_appendI[of _ s w])
qed

lemma archiveEncode_keeps_separator:
  assumes "ARCHIVE_SEPARATOR \<in> set s"
  shows "ARCHIVE_SEPARATOR \<in> set (archiveEncode d s)"
proof -
  let ?e = "replace (replace s ''.jar!'' (''.jar!'' @ [sep d])) ''.zip!'' (''.zip!'' @ [sep d])"
  have "archiveEncode d s = ?e"
    using assms by (simp add: archiveEncode_def indexOf_char_neg KNOWN_ARCHIVE_EXTENSIONS_def
        ARCHIVE_SEPARATOR_def)
  moreover have "ARCHIVE_SEPARATOR \<in> set ?e"
    using assms by (intro set_replace_keeps) (simp_all add: ARCHIVE_SEPARATOR_def)
  ultimately show ?thesis by simp
qed

lemma archiveDecode_encoded_child:
  assumes "set t \<subseteq> {sep d, CHR ''x''}" and "t \<noteq> []" and "last t = CHR ''x''"
  shows "archiveDecode d (archiveEncode d s @ t) = s @ t"
proof -
  from assms(2,3) obtain t' where "t = t' @ ''x''"
    by (cases t rule: rev_cases) auto
  then have "\<not> endsWithArchiveSeparator (s @ t)"
    using not_endsWithArchiveSeparator_x[of "s @ t'"] by simp
  then have "trimArchiveSuffix (s @ t) = s @ t" by (simp add: trimArchiveSuffix_def)
  then show ?thesis
    using archiveEncode_append[OF assms(1), of s] archiveDecode_archiveEncode[of d "s @ t"]
    by simp
qed

lemma startsWith_slash_archiveEncode:
  assumes "startsWith s ''/''"
  shows "startsWith (archiveEncode d s) ''/''"
proof (cases "ARCHIVE_SEPARATOR \<in> set s")
  case False
  with assms show ?thesis by (simp add: archiveEncode_no_separator)
next
  case True
  let ?j = "replace s ''.jar!'' (''.jar!'' @ [sep d])"
  have "take 1 (replace ?j ''.zip!'' (''.zip!'' @ [sep d])) = take 1 ?j"
    by (intro take_le_replace_insert) simp
  also have "\<dots> = take 1 s" by (intro take_le_replace_insert) simp
  also have "\<dots> = ''/''" using assms by (auto simp: startsWith_def prefix_def)
  finally have "startsWith (replace ?j ''.zip!'' (''.zip!'' @ [sep d])) ''/''"
    by (simp add: startsWith_def prefix_take_iff)
  then show ?thesis
    using True by (simp add: archiveEncode_def indexOf_char_neg KNOWN_ARCHIVE_EXTENSIONS_def
        ARCHIVE_SEPARATOR_def)
qed

lemma archiveDecode_remote_child:
  assumes "CHR ''/'' \<notin> set h"
    and "\<not> suffix ''.jar!'' h" and "\<not> suffix ''.zip!'' h"
    and "startsWith p ''/''"
    and "set t \<subseteq> {CHR ''/'', CHR ''x''}" and "t \<noteq> []" and "last t = CHR ''x''"
  shows "archiveDecode Posix (REMOTE_PATH_URI_PREFIX @ h @ archiveEncode Posix p @ t) =
         REMOTE_PATH_URI_PREFIX @ h @ p @ t"
proof -
  define x where "x = archiveEncode Posix p @ t"
  define w where "w = REMOTE_PATH_URI_PREFIX @ h @ x"
  have st: "set t \<subseteq> {sep Posix, CHR ''x''}" using assms(5) by simp
  have xs: "startsWith x ''/''"
    using startsWith_slash_archiveEncode[OF assms(4), of Posix]
    by (auto simp: x_def startsWith_def prefix_def)
  have xe: "x = archiveEncode Posix (p @ t)"
    using archiveEncode_append[OF st, of p] by (simp add: x_def)
  define x1 where "x1 = replace x (''.jar!'' @ ''/'') ''.jar!''"
  have s1: "startsWith x1 ''/''"
    unfolding x1_def using xs by (intro startsWith_slash_replace_delete) simp_all
  have del: "replace x1 (''.zip!'' @ ''/'') ''.zip!'' = p @ t"
    using delete_archiveEncode[of Posix "p @ t"] by (simp add: x1_def xe)
  have w1: "replace w (''.jar!'' @ ''/'') ''.jar!'' = REMOTE_PATH_URI_PREFIX @ h @ x1"
    unfolding w_def x1_def using assms(1,2) _ xs by (rule replace_behind_hostname) simp
  have w2: "replace (REMOTE_PATH_URI_PREFIX @ h @ x1) (''.zip!'' @ ''/'') ''.zip!'' =
        REMOTE_PATH_URI_PREFIX @ h @ p @ t"
    using replace_behind_hostname[OF assms(1,3) _ s1] del by simp
  from assms(6,7) obtain t' where t': "t = t' @ ''x''"
    by (cases t rule: rev_cases) auto
  have ne: "\<not> endsWithArchiveSeparator (REMOTE_PATH_URI_PREFIX @ h @ p @ t)"
    using not_endsWithArchiveSeparator_x[of "REMOTE_PATH_URI_PREFIX @ h @ p @ t'"] t' by simp
  show ?thesis
  proof (cases "ARCHIVE_SEPARATOR \<in> set w")
    case True
    then have "archiveDecode Posix w = trimArchiveSuffix
        (replace (replace w (''.jar!'' @ ''/'') ''.jar!'') (''.zip!'' @ ''/'') ''.zip!'')"
      by (simp add: archiveDecode_def indexOf_char_neg KNOWN_ARCHIVE_EXTENSIONS_def
          ARCHIVE_SEPARATOR_def)
    also have "\<dots> = trimArchiveSuffix (REMOTE_PATH_URI_PREFIX @ h @ p @ t)"
      by (simp only: w1 w2)
    also have "\<dots> = REMOTE_PATH_URI_PREFIX @ h @ p @ t"
      using ne by (simp add: trimArchiveSuffix_def)
    finally show ?thesis by (simp add: w_def x_def)
  next
    case False
    then have "ARCHIVE_SEPARATOR \<notin> set (archiveEncode Posix p)" by (simp add: w_def x_def)
    then have "ARCHIVE_SEPARATOR \<notin> set p"
      using archiveEncode_keeps_separator[of p Posix] by blast
    then have "archiveEncode Posix p = p" by (rule archiveEncode_no_separator)
    with False show ?thesis by (simp add: archiveDecode_no_separator w_def x_def)
  qed
qed

lemma join_plain:
  assumes "pathModuleFor parent = Inr d" and "parse parent = Inr ps" and "plainHostname ps"
    and "joinsPlainly njoin d (archiveEncode d (path ps))"
  shows "join njoin parent [''x''] =
         Inr (parent @ (if endsWith parent [sep d] then [] else [sep d]) @ ''x'')"
proof -
  define e where "e = archiveEncode d (path ps)"
  define t where "t = (if endsWith parent [sep d] then [] else [sep d]) @ ''x''"
  have legal: "testForIllegalUri parent = Inr ()" using assms(2) by (rule parse_ok_legal)
  then have ne: "\<not> endsWithArchiveSeparator parent"
    by (auto simp: testForIllegalUri_def split: if_splits)
  have t: "set t \<subseteq> {sep d, CHR ''x''}" "t \<noteq> []" "last t = CHR ''x''"
    by (simp_all add: t_def)
  have x: "archiveEncode d ''x'' = ''x''"
    by (rule archiveEncode_no_separator) (simp add: ARCHIVE_SEPARATOR_def)
  show ?thesis
  proof (cases "isRemote parent")
    case False
    with assms(2) have ps: "path ps = parent"
      by (auto simp: parse_def isRemote_def split: if_splits)
    from ne have "\<not> suffix ''.jar!'' parent" "\<not> suffix ''.zip!'' parent"
      using no_archive_suffix[of "[]" parent] by simp_all
    then have "endsWith e [sep d] \<longleftrightarrow> endsWith parent [sep d]"
      unfolding e_def ps by (rule archiveEncode_endsWith)
    with assms(4) have "njoin d [e, ''x''] = e @ t"
      by (simp add: joinsPlainly_def e_def t_def)
    moreover have "archiveDecode d (e @ t) = parent @ t"
      unfolding e_def ps using t by (rule archiveDecode_encoded_child)
    ultimately have "join njoin parent [''x''] = Inr (parent @ t)"
      using legal assms(1) False x by (simp add: join_def e_def ps)
    then show ?thesis by (simp add: t_def)
  next
    case True
    from parse_remote_shape[OF assms(2) True] obtain h where
      h: "hostname ps = Some h" "h \<noteq> []" "CHR ''/'' \<notin> set h"
      and p: "startsWith (path ps) ''/''"
      and s: "parent = REMOTE_PATH_URI_PREFIX @ h @ path ps" by blast
    have d: "d = Posix" using remote_is_posix[OF True ne] assms(1) by simp
    have pr: "parseRemoteUri parent = Inr (h, path ps)"
      using assms(2) True h by (simp add: parseRemoteUri_def)
    from assms(3) h(1) have nh: "\<not> suffix ''.jar!'' h" "\<not> suffix ''.zip!'' h"
      by (auto simp: plainHostname_def KNOWN_ARCHIVE_EXTENSIONS_def endsWith_def
          ARCHIVE_SEPARATOR_def)
    from p have pne: "path ps \<noteq> []" by (auto simp: startsWith_def)
    have "\<not> endsWithArchiveSeparator ((REMOTE_PATH_URI_PREFIX @ h) @ path ps)"
      using ne s by simp
    then have "\<not> suffix ''.jar!'' (path ps)" "\<not> suffix ''.zip!'' (path ps)"
      by (rule no_archive_suffix)+
    then have "endsWith e [sep d] \<longleftrightarrow> endsWith (path ps) [sep d]"
      unfolding e_def by (rule archiveEncode_endsWith)
    also have "\<dots> \<longleftrightarrow> endsWith parent [sep d]"
      using suffix_char_append[OF pne, of "sep d" "REMOTE_PATH_URI_PREFIX @ h"] s
      by (simp add: endsWith_def)
    finally have "njoin d [e, ''x''] = e @ t"
      using assms(4) by (simp add: joinsPlainly_def e_def t_def)
    moreover have "e @ t \<noteq> []" using t(2) by simp
    then have "createRemoteUri h (e @ t) = Inr (REMOTE_PATH_URI_PREFIX @ h @ e @ t)"
      by (simp add: createRemoteUri_def REMOTE_PATH_URI_PREFIX_def)
    moreover have "archiveDecode Posix (REMOTE_PATH_URI_PREFIX @ h @ e @ t) = parent @ t"
      using archiveDecode_remote_child[OF h(3) nh p, of t] t d s by (simp add: e_def)
    ultimately have "join njoin parent [''x''] = Inr (parent @ t)"
      using legal assms(1) True x pr d by (simp add: join_def e_def)
    then show ?thesis by (simp add: t_def)
  qed
qed

text \<open>
  Claim C2, as amended.  For two locations that pass the test for illegal URIs,
  \<open>contains\<close> returns a truth value.  When the child is shorter than the parent, the value
  is true exactly when the parent is the child followed by one separator of the parent's
  dialect.  When the child is at least as long, the value is true if the child starts with
  the parent and the lengths are equal, or the parent ends with its separator, or the
  child goes on with the separator of its dialect, or the parent ends with an archive
  extension and the child goes on with the archive separator; and it is true only then,
  unless the parent has three characters and the child goes on with the archive separator
  (where the test for an archive separator misfires, see claim C4).  A location contains
  itself.  A location that \<open>parse\<close> accepts contains the result of joining \<open>x\<close> to it,
  provided that the native \<open>join\<close> puts \<open>x\<close> behind the encoded path as it is written
  and that the hostname does not end with an archive extension and the archive separator.
\<close>

theorem contains_behaviour:
  assumes "testForIllegalUri parent = Inr ()" and "testForIllegalUri child = Inr ()"
    and "pathModuleFor parent = Inr dp" and "pathModuleFor child = Inr dc"
  shows "(\<exists>b. contains parent child = Inr b) \<and>
         (length child < length parent \<longrightarrow>
            contains parent child = Inr (parent = child @ [sep dp])) \<and>
         (length parent \<le> length child \<and> startsWith child parent \<and>
            (length parent = length child \<or> endsWith parent [sep dp] \<or>
             startsWith (drop (length parent) child) [sep dc] \<or>
             (hasKnownArchiveExtension parent \<and>
              startsWith (drop (length parent) child) [ARCHIVE_SEPARATOR])) \<longrightarrow>
            contains parent child = Inr True) \<and>
         (length parent \<le> length child \<and> contains parent child = Inr True \<and>
          \<not> (length parent = 3 \<and> startsWith (drop 3 child) [ARCHIVE_SEPARATOR]) \<longrightarrow>
            startsWith child parent \<and>
            (length parent = length child \<or> endsWith parent [sep dp] \<or>
             startsWith (drop (length parent) child) [sep dc] \<or>
             (hasKnownArchiveExtension parent \<and>
              startsWith (drop (length parent) child) [ARCHIVE_SEPARATOR]))) \<and>
         contains parent parent = Inr True \<and>
         (parse parent = Inr ps \<and> plainHostname ps \<and>
          joinsPlainly njoin dp (archiveEncode dp (path ps)) \<longrightarrow>
            (\<exists>c. join njoin parent [''x''] = Inr c \<and> contains parent c = Inr True))"
proof -
  note shorter = contains_shorter[OF assms(1,2,3)]
  note longer = contains_longer[OF assms]
  note exact = contains_exact[OF assms]
  have 1: "\<exists>b. contains parent child = Inr b"
    using shorter longer by (cases "length child < length parent") auto
  have 2: "length child < length parent \<longrightarrow>
            contains parent child = Inr (parent = child @ [sep dp])"
    using shorter by simp
  have 3: "length parent \<le> length child \<and> startsWith child parent \<and>
            (length parent = length child \<or> endsWith parent [sep dp] \<or>
             startsWith (drop (length parent) child) [sep dc] \<or>
             (hasKnownArchiveExtension parent \<and>
              startsWith (drop (length parent) child) [ARCHIVE_SEPARATOR])) \<longrightarrow>
            contains parent child = Inr True"
    using longer isArchiveSeparator_at_boundary[of parent child] by auto
  have 4: "length parent \<le> length child \<and> contains parent child = Inr True \<and>
          \<not> (length parent = 3 \<and> startsWith (drop 3 child) [ARCHIVE_SEPARATOR]) \<longrightarrow>
            startsWith child parent \<and>
            (length parent = length child \<or> endsWith parent [sep dp] \<or>
             startsWith (drop (length parent) child) [sep dc] \<or>
             (hasKnownArchiveExtension parent \<and>
              startsWith (drop (length parent) child) [ARCHIVE_SEPARATOR]))"
  proof (intro impI)
    assume a: "length parent \<le> length child \<and> contains parent child = Inr True \<and>
          \<not> (length parent = 3 \<and> startsWith (drop 3 child) [ARCHIVE_SEPARATOR])"
    then have "contains parent child = Inr True" by simp
    moreover from a have "contains parent child =
     Inr (startsWith child parent \<and>
          (length parent = length child \<or> endsWith parent [sep dp] \<or>
           startsWith (drop (length parent) child) [sep dc] \<or>
           (hasKnownArchiveExtension parent \<and>
            startsWith (drop (length parent) child) [ARCHIVE_SEPARATOR])))"
      by (intro exact) simp_all
    ultimately show "startsWith child parent \<and>
            (length parent = length child \<or> endsWith parent [sep dp] \<or>
             startsWith (drop (length parent) child) [sep dc] \<or>
             (hasKnownArchiveExtension parent \<and>
              startsWith (drop (length parent) child) [ARCHIVE_SEPARATOR]))"
      by (simp only: sum.inject simp_thms)
  qed
  have 5: "contains parent parent = Inr True"
    using contains_longer[OF assms(1) assms(1) assms(3) assms(3)]
    by (simp add: startsWith_def)
  have 6: "parse parent = Inr ps \<and> plainHostname ps \<and>
          joinsPlainly njoin dp (archiveEncode dp (path ps)) \<longrightarrow>
            (\<exists>c. join njoin parent [''x''] = Inr c \<and> contains parent c = Inr True)"
  proof (intro impI)
    assume a: "parse parent = Inr ps \<and> plainHostname ps \<and>
          joinsPlainly njoin dp (archiveEncode dp (path ps))"
    then have "join njoin parent [''x''] =
         Inr (parent @ (if endsWith parent [sep dp] then [] else [sep dp]) @ ''x'')"
      using join_plain[OF assms(3), of ps njoin] by simp
    moreover have "contains parent
        (parent @ (if endsWith parent [sep dp] then [] else [sep dp]) @ ''x'') = Inr True"
      using assms(1,3) by (rule contains_child)
    ultimately show "\<exists>c. join njoin parent [''x''] = Inr c \<and> contains parent c = Inr True"
      by blast
  qed
  from 1 2 3 4 5 6 show ?thesis by blast
qed

theorem contains_behaviour_witness:
  "testForIllegalUri ''/www/'' = Inr () \<and> testForIllegalUri ''/www'' = Inr () \<and>
   pathModuleFor ''/www/'' = Inr Posix \<and> pathModuleFor ''/www'' = Inr Posix \<and>
   testForIllegalUri ''/www-base'' = Inr () \<and> pathModuleFor ''/www-base'' = Inr Posix \<and>
   testForIllegalUri ''/www!base'' = Inr () \<and> pathModuleFor ''/www!base'' = Inr Posix \<and>
   contains ''/www/'' ''/www'' = Inr True \<and>
   contains ''/www'' ''/www-base'' = Inr False \<and>
   contains ''/www'' ''/www!base'' = Inr False \<and>
   contains ''/www'' ''/www'' = Inr True \<and>
   testForIllegalUri ''/a.zip'' = Inr () \<and> pathModuleFor ''/a.zip'' = Inr Posix \<and>
   testForIllegalUri ''/a.zip!b'' = Inr () \<and> pathModuleFor ''/a.zip!b'' = Inr Posix \<and>
   contains ''/a.zip'' ''/a.zip!b'' = Inr True \<and>
   parse ''/www'' = Inr \<lparr>hostname = None, path = ''/www''\<rparr> \<and>
   plainHostname \<lparr>hostname = None, path = ''/www''\<rparr> \<and>
   joinsPlainly node_join Posix (archiveEncode Posix ''/www'') \<and>
   join node_join ''/www'' [''x''] = Inr ''/www/x'' \<and>
   contains ''/www'' ''/www/x'' = Inr True \<and>
   testForIllegalUri ''nuclide://host/a.zip!b'' = Inr () \<and>
   pathModuleFor ''nuclide://host/a.zip!b'' = Inr Posix \<and>
   parse ''nuclide://host/a.zip!b'' = Inr \<lparr>hostname = Some ''host'', path = ''/a.zip!b''\<rparr> \<and>
   plainHostname \<lparr>hostname = Some ''host'', path = ''/a.zip!b''\<rparr> \<and>
   joinsPlainly node_join Posix (archiveEncode Posix ''/a.zip!b'') \<and>
   join node_join ''nuclide://host/a.zip!b'' [''x''] = Inr ''nuclide://host/a.zip!b/x'' \<and>
   contains ''nuclide://host/a.zip!b'' ''nuclide://host/a.zip!b/x'' = Inr True"
proof -
  have a: "testForIllegalUri ''/www/'' = Inr ()" by code_simp
  have b: "testForIllegalUri ''/www'' = Inr ()" by code_simp
  have c: "pathModuleFor ''/www/'' = Inr Posix" by code_simp
  have d: "pathModuleFor ''/www'' = Inr Posix" by code_simp
  have e: "testForIllegalUri ''/www-base'' = Inr ()" by code_simp
  have f: "pathModuleFor ''/www-base'' = Inr Posix" by code_simp
  have g: "testForIllegalUri ''/www!base'' = Inr ()" by code_simp
  have h: "pathModuleFor ''/www!base'' = Inr Posix" by code_simp
  have l1: "length ''/www'' < length ''/www/''" by simp
  have 1: "contains ''/www/'' ''/www'' = Inr True"
    using contains_behaviour[OF a b c d, THEN conjunct2, THEN conjunct1] l1 by simp
  have n1: "\<not> (startsWith ''/www-base'' ''/www'' \<and>
            (length ''/www'' = length ''/www-base'' \<or> endsWith ''/www'' [sep Posix] \<or>
             startsWith (drop (length ''/www'') ''/www-base'') [sep Posix] \<or>
             (hasKnownArchiveExtension ''/www'' \<and>
              startsWith (drop (length ''/www'') ''/www-base'') [ARCHIVE_SEPARATOR])))"
    by code_simp
  have k1: "length ''/www'' \<le> length ''/www-base''"
    "\<not> (length ''/www'' = 3 \<and> startsWith (drop 3 ''/www-base'') [ARCHIVE_SEPARATOR])"
    by simp_all
  have "contains ''/www'' ''/www-base'' \<noteq> Inr True"
    using contains_behaviour[OF b e d f, THEN conjunct2, THEN conjunct2, THEN conjunct2,
        THEN conjunct1] n1 k1 by blast
  moreover have "\<exists>b. contains ''/www'' ''/www-base'' = Inr b"
    using contains_behaviour[OF b e d f, THEN conjunct1] .
  ultimately have 2: "contains ''/www'' ''/www-base'' = Inr False" by auto
  have n2: "\<not> (startsWith ''/www!base'' ''/www'' \<and>
            (length ''/www'' = length ''/www!base'' \<or> endsWith ''/www'' [sep Posix] \<or>
             startsWith (drop (length ''/www'') ''/www!base'') [sep Posix] \<or>
             (hasKnownArchiveExtension ''/www'' \<and>
              startsWith (drop (length ''/www'') ''/www!base'') [ARCHIVE_SEPARATOR])))"
    by code_simp
  have k2: "length ''/www'' \<le> length ''/www!base''"
    "\<not> (length ''/www'' = 3 \<and> startsWith (drop 3 ''/www!base'') [ARCHIVE_SEPARATOR])"
    by simp_all
  have "contains ''/www'' ''/www!base'' \<noteq> Inr True"
    using contains_behaviour[OF b g d h, THEN conjunct2, THEN conjunct2, THEN conjunct2,
        THEN conjunct1] n2 k2 by blast
  moreover have "\<exists>b. contains ''/www'' ''/www!base'' = Inr b"
    using contains_behaviour[OF b g d h, THEN conjunct1] .
  ultimately have 3: "contains ''/www'' ''/www!base'' = Inr False" by auto
  have 4: "contains ''/www'' ''/www'' = Inr True"
    using contains_behaviour[OF b b d d, THEN conjunct2, THEN conjunct2, THEN conjunct2,
        THEN conjunct2, THEN conjunct1] .
  have za: "testForIllegalUri ''/a.zip'' = Inr ()" by code_simp
  have zb: "pathModuleFor ''/a.zip'' = Inr Posix" by code_simp
  have zc: "testForIllegalUri ''/a.zip!b'' = Inr ()" by code_simp
  have zd: "pathModuleFor ''/a.zip!b'' = Inr Posix" by code_simp
  have zk: "length ''/a.zip'' \<le> length ''/a.zip!b'' \<and> startsWith ''/a.zip!b'' ''/a.zip'' \<and>
            (length ''/a.zip'' = length ''/a.zip!b'' \<or> endsWith ''/a.zip'' [sep Posix] \<or>
             startsWith (drop (length ''/a.zip'') ''/a.zip!b'') [sep Posix] \<or>
             (hasKnownArchiveExtension ''/a.zip'' \<and>
              startsWith (drop (length ''/a.zip'') ''/a.zip!b'') [ARCHIVE_SEPARATOR]))"
    by code_simp
  have z: "contains ''/a.zip'' ''/a.zip!b'' = Inr True"
    using contains_behaviour[OF za zc zb zd, THEN conjunct2, THEN conjunct2, THEN conjunct1] zk
    by blast
  have p: "parse ''/www'' = Inr \<lparr>hostname = None, path = ''/www''\<rparr>" by code_simp
  have q: "plainHostname \<lparr>hostname = None, path = ''/www''\<rparr>" by code_simp
  have r: "joinsPlainly node_join Posix (archiveEncode Posix ''/www'')" by code_simp
  then have r': "joinsPlainly node_join Posix
      (archiveEncode Posix (path \<lparr>hostname = None, path = ''/www''\<rparr>))" by simp
  have j: "join node_join ''/www'' [''x''] = Inr ''/www/x''" by code_simp
  have "\<exists>c. join node_join ''/www'' [''x''] = Inr c \<and> contains ''/www'' c = Inr True"
    using contains_behaviour[where njoin = node_join
        and ps = "\<lparr>hostname = None, path = ''/www''\<rparr>", OF b b d d,
        THEN conjunct2, THEN conjunct2, THEN conjunct2, THEN conjunct2, THEN conjunct2]
      p q r' by blast
  then have 5: "contains ''/www'' ''/www/x'' = Inr True" using j by auto
  have ra: "testForIllegalUri ''nuclide://host/a.zip!b'' = Inr ()" by code_simp
  have rb: "pathModuleFor ''nuclide://host/a.zip!b'' = Inr Posix" by code_simp
  have rp: "parse ''nuclide://host/a.zip!b'' =
      Inr \<lparr>hostname = Some ''host'', path = ''/a.zip!b''\<rparr>" by code_simp
  have rq: "plainHostname \<lparr>hostname = Some ''host'', path = ''/a.zip!b''\<rparr>" by code_simp
  have rr: "joinsPlainly node_join Posix (archiveEncode Posix ''/a.zip!b'')" by code_simp
  then have rr': "joinsPlainly node_join Posix
      (archiveEncode Posix (path \<lparr>hostname = Some ''host'', path = ''/a.zip!b''\<rparr>))"
    by simp
  have rj: "join node_join ''nuclide://host/a.zip!b'' [''x''] = Inr ''nuclide://host/a.zip!b/x''"
    by code_simp
  have "\<exists>c. join node_join ''nuclide://host/a.zip!b'' [''x''] = Inr c \<and>
      contains ''nuclide://host/a.zip!b'' c = Inr True"
    using contains_behaviour[where njoin = node_join
        and ps = "\<lparr>hostname = Some ''host'', path = ''/a.zip!b''\<rparr>", OF ra ra rb rb,
        THEN conjunct2, THEN conjunct2, THEN conjunct2, THEN conjunct2, THEN conjunct2]
      rp rq rr' by blast
  then have 6: "contains ''nuclide://host/a.zip!b'' ''nuclide://host/a.zip!b/x'' = Inr True"
    using rj by auto
  from a b c d e f g h 1 2 3 4 za zb zc zd z p q r j 5 ra rb rp rq rr rj 6 show ?thesis
    by (simp only: simp_thms)
qed

text \<open>
  The test is on the strings as they are written, while \<open>join\<close> normalizes: when the
  parent is not in normal form, the joined child does not start with it.  When the
  hostname ends with an archive extension and the archive separator, \<open>join\<close> changes the
  hostname (claim C10), and the joined child does not start with the parent either.  For
  a parent of three characters the test for an archive separator accepts an archive
  separator that no archive extension precedes (claim C4), and \<open>www\<close> contains its
  sibling \<open>www!base\<close>.
\<close>

theorem contains_join_counterexample:
  "parse ''/a/../b'' = Inr \<lparr>hostname = None, path = ''/a/../b''\<rparr> \<and>
   join node_join ''/a/../b'' [''x''] = Inr ''/b/x'' \<and>
   contains ''/a/../b'' ''/b/x'' = Inr False \<and>
   parse ''nuclide://h.zip!/x'' = Inr \<lparr>hostname = Some ''h.zip!'', path = ''/x''\<rparr> \<and>
   join node_join ''nuclide://h.zip!/x'' [''x''] = Inr ''nuclide://h.zip!x/x'' \<and>
   contains ''nuclide://h.zip!/x'' ''nuclide://h.zip!x/x'' = Inr False \<and>
   parse ''www'' = Inr \<lparr>hostname = None, path = ''www''\<rparr> \<and>
   parse ''www!base'' = Inr \<lparr>hostname = None, path = ''www!base''\<rparr> \<and>
   hasKnownArchiveExtension ''www'' = False \<and>
   contains ''www'' ''www!base'' = Inr True"
  by code_simp

section \<open>Editor-internal URIs\<close>

lemma contains_errors:
  assumes "contains a b = Inl e"
  shows "e = IllegalAtomUri \<or> e = IllegalArchiveSuffix"
proof (cases "testForIllegalUri a")
  case (Inl x)
  with assms show ?thesis
    by (auto simp: contains_def testForIllegalUri_def split: if_splits)
next
  case la: (Inr u)
  then have la': "testForIllegalUri a = Inr ()" by simp
  show ?thesis
  proof (cases "testForIllegalUri b")
    case (Inl x)
    with assms la show ?thesis
      by (auto simp: contains_def testForIllegalUri_def split: if_splits)
  next
    case (Inr v)
    then have lb: "testForIllegalUri b = Inr ()" by simp
    from legal_pathModuleFor[OF la'] obtain da where da: "pathModuleFor a = Inr da" by blast
    from legal_pathModuleFor[OF lb] obtain db where db: "pathModuleFor b = Inr db" by blast
    have "\<exists>r. contains a b = Inr r"
      using contains_shorter[OF la' lb da] contains_longer[OF la' lb da db]
      by (cases "length b < length a") auto
    with assms show ?thesis by simp
  qed
qed

lemma someContains_errors:
  "someContains fps p = Inl e \<Longrightarrow> e = IllegalAtomUri \<or> e = IllegalArchiveSuffix"
proof (induction fps)
  case Nil
  then show ?case by simp
next
  case (Cons fp fps)
  show ?case
  proof (cases "contains fp p")
    case (Inl x)
    with Cons.prems contains_errors[OF Inl] show ?thesis by simp
  next
    case (Inr c)
    with Cons show ?thesis by (auto split: if_splits)
  qed
qed

lemma someContains_atom:
  assumes "isAtomUri p" and "fps \<noteq> []"
  shows "\<exists>e. someContains fps p = Inl e"
proof -
  from assms(2) obtain fp rest where f: "fps = fp # rest" by (cases fps) auto
  have "\<exists>e. contains fp p = Inl e"
    using atom_illegal[OF assms(1)]
    by (cases "testForIllegalUri fp") (auto simp: contains_def)
  with f show ?thesis by auto
qed

lemma collapseFilter_atom:
  assumes "isAtomUri uri" and "paths \<noteq> []"
  shows "uri \<in> set ps \<Longrightarrow>
         collapseFilter paths ps = Inl IllegalAtomUri \<or>
         collapseFilter paths ps = Inl IllegalArchiveSuffix"
proof (induction ps)
  case Nil
  then show ?case by simp
next
  case (Cons p ps)
  show ?case
  proof (cases "someContains paths p")
    case (Inl e)
    with someContains_errors[OF Inl] show ?thesis by auto
  next
    case (Inr covered)
    with someContains_atom[OF assms] have "p \<noteq> uri" by auto
    with Cons.prems have "uri \<in> set ps" by simp
    from Cons.IH[OF this] Inr show ?thesis by auto
  qed
qed

lemma collapse_atom:
  assumes "isAtomUri uri"
  shows "collapse (uri # paths) = Inl IllegalAtomUri"
    and "uri \<in> set paths \<Longrightarrow>
         collapse paths = Inl IllegalAtomUri \<or> collapse paths = Inl IllegalArchiveSuffix"
proof -
  show "collapse (uri # paths) = Inl IllegalAtomUri"
    using atom_illegal[OF assms] by (simp add: collapse_def contains_def)
  show "collapse paths = Inl IllegalAtomUri \<or> collapse paths = Inl IllegalArchiveSuffix"
    if "uri \<in> set paths"
  proof -
    from that have "paths \<noteq> []" by auto
    from collapseFilter_atom[OF assms this that] show ?thesis by (simp add: collapse_def)
  qed
qed

lemma atom_parse: "isAtomUri uri \<Longrightarrow> parse uri = Inl NotLocalOrRemote"
  using isAtomUri_has_scheme[of uri] isAtomUri_not_remote[of uri]
  by (simp add: parse_def isRemote_def)

lemma contains_atom_child:
  assumes "isAtomUri uri"
  shows "contains other uri = Inl IllegalAtomUri \<or> contains other uri = Inl IllegalArchiveSuffix"
proof -
  have "\<exists>e. contains other uri = Inl e"
    using atom_illegal[OF assms]
    by (cases "testForIllegalUri other") (auto simp: contains_def)
  then obtain e where e: "contains other uri = Inl e" by blast
  from contains_errors[OF e] e show ?thesis by auto
qed

lemma atom_not_remote_uri: "isAtomUri uri \<Longrightarrow> parseRemoteUri uri = Inl ExpectedRemote"
  using isAtomUri_not_remote[of uri] by (simp add: parseRemoteUri_def)

text \<open>
  Claim C5, as amended.  Given an editor-internal URI as the location to work on, every
  path operation fails: the operations that start with the test for illegal URIs fail with
  the error of that test, and so do \<open>split\<close> (through \<open>dirname\<close>) and \<open>collapse\<close>
  (through \<open>contains\<close>; when another element of the list is illegal too, \<open>collapse\<close> may
  fail with the error for that element).  For \<open>contains\<close> the URI may be either argument
  (when the other argument is illegal as well, the error may be the one for its trailing
  archive separator), for \<open>relative\<close> it is the first one.  The parser fails as well: \<open>parse\<close> and \<open>getPath\<close>
  because of the foreign scheme, \<open>parseRemoteUri\<close> and \<open>getHostname\<close> because the URI is
  not remote.
\<close>

theorem atom_uri_rejected:
  assumes "isAtomUri uri"
  shows "join njoin uri rel = Inl IllegalAtomUri \<and>
         archiveJoin uri p = Inl IllegalAtomUri \<and>
         normalize nnormalize uri = Inl IllegalAtomUri \<and>
         normalizeDir nnormalize uri = Inl IllegalAtomUri \<and>
         getParent njoin nnormalize uri = Inl IllegalAtomUri \<and>
         relative nrelative uri other = Inl IllegalAtomUri \<and>
         basename nbasename uri ext = Inl IllegalAtomUri \<and>
         dirname ndirname uri = Inl IllegalAtomUri \<and>
         extname nextname uri = Inl IllegalAtomUri \<and>
         stripExtension nextname uri = Inl IllegalAtomUri \<and>
         nuclideUriToUri uri = Inl IllegalAtomUri \<and>
         contains uri other = Inl IllegalAtomUri \<and>
         (testForIllegalUri other = Inr () \<longrightarrow> contains other uri = Inl IllegalAtomUri) \<and>
         (contains other uri = Inl IllegalAtomUri \<or>
          contains other uri = Inl IllegalArchiveSuffix) \<and>
         ensureTrailingSeparator uri = Inl IllegalAtomUri \<and>
         endsWithSeparator uri = Inl IllegalAtomUri \<and>
         isAbsolute nisAbsolute uri = Inl IllegalAtomUri \<and>
         resolve nresolve uri paths = Inl IllegalAtomUri \<and>
         expandHomeDir nresolve env uri = Inl IllegalAtomUri \<and>
         ensureLocalPrefix nisAbsolute uri = Inl IllegalAtomUri \<and>
         isRoot ndirname uri = Inl IllegalAtomUri \<and>
         trimTrailingSeparator ndirname uri = Inl IllegalAtomUri \<and>
         parsePath nparse uri = Inl IllegalAtomUri \<and>
         nuclideUriToDisplayString hostFormatters uri = Inl IllegalAtomUri \<and>
         split ndirname nbasename nisAbsolute uri = Some (Inl IllegalAtomUri) \<and>
         collapse (uri # uris) = Inl IllegalAtomUri \<and>
         (uri \<in> set uris \<longrightarrow>
            collapse uris = Inl IllegalAtomUri \<or> collapse uris = Inl IllegalArchiveSuffix) \<and>
         parse uri = Inl NotLocalOrRemote \<and>
         getPath uri = Inl NotLocalOrRemote \<and>
         parseRemoteUri uri = Inl ExpectedRemote \<and>
         getHostname uri = Inl ExpectedRemote"
proof -
  note a = atom_illegal[OF assms]
  have 1: "join njoin uri rel = Inl IllegalAtomUri \<and>
         archiveJoin uri p = Inl IllegalAtomUri \<and>
         normalize nnormalize uri = Inl IllegalAtomUri \<and>
         normalizeDir nnormalize uri = Inl IllegalAtomUri \<and>
         getParent njoin nnormalize uri = Inl IllegalAtomUri \<and>
         relative nrelative uri other = Inl IllegalAtomUri \<and>
         basename nbasename uri ext = Inl IllegalAtomUri \<and>
         dirname ndirname uri = Inl IllegalAtomUri \<and>
         extname nextname uri = Inl IllegalAtomUri \<and>
         stripExtension nextname uri = Inl IllegalAtomUri \<and>
         nuclideUriToUri uri = Inl IllegalAtomUri \<and>
         contains uri other = Inl IllegalAtomUri \<and>
         (testForIllegalUri other = Inr () \<longrightarrow> contains other uri = Inl IllegalAtomUri) \<and>
         ensureTrailingSeparator uri = Inl IllegalAtomUri \<and>
         endsWithSeparator uri = Inl IllegalAtomUri \<and>
         isAbsolute nisAbsolute uri = Inl IllegalAtomUri \<and>
         resolve nresolve uri paths = Inl IllegalAtomUri \<and>
         expandHomeDir nresolve env uri = Inl IllegalAtomUri \<and>
         ensureLocalPrefix nisAbsolute uri = Inl IllegalAtomUri \<and>
         isRoot ndirname uri = Inl IllegalAtomUri"
    using a
    by (simp add: join_def archiveJoin_def normalize_def normalizeDir_def getParent_def
        relative_def basename_def dirname_def extname_def stripExtension_def
        nuclideUriToUri_def contains_def ensureTrailingSeparator_def endsWithSeparator_def
        isAbsolute_def resolve_def expandHomeDir_def ensureLocalPrefix_def isRoot_def)
  have 2: "trimTrailingSeparator ndirname uri = Inl IllegalAtomUri"
    using a by (simp add: trimTrailingSeparator_def)
  have 3: "parsePath nparse uri = Inl IllegalAtomUri"
    using a by (simp add: parsePath_def)
  have 4: "nuclideUriToDisplayString hostFormatters uri = Inl IllegalAtomUri"
    using a by (simp add: nuclideUriToDisplayString_def)
  have 5: "split ndirname nbasename nisAbsolute uri = Some (Inl IllegalAtomUri)"
    using a by (simp add: split_def dirname_def)
  have 6: "collapse (uri # uris) = Inl IllegalAtomUri"
    using assms by (rule collapse_atom(1))
  have 7: "uri \<in> set uris \<longrightarrow>
            collapse uris = Inl IllegalAtomUri \<or> collapse uris = Inl IllegalArchiveSuffix"
    using collapse_atom(2)[OF assms] by blast
  have 8: "parse uri = Inl NotLocalOrRemote" using assms by (rule atom_parse)
  then have 9: "getPath uri = Inl NotLocalOrRemote" by (simp add: getPath_def)
  have 10: "parseRemoteUri uri = Inl ExpectedRemote" using assms by (rule atom_not_remote_uri)
  then have 11: "getHostname uri = Inl ExpectedRemote" by (simp add: getHostname_def)
  have 12: "contains other uri = Inl IllegalAtomUri \<or>
      contains other uri = Inl IllegalArchiveSuffix"
    using assms by (rule contains_atom_child)
  from 1 2 3 4 5 6 7 8 9 10 11 12 show ?thesis by blast
qed

theorem atom_uri_rejected_witness:
  "isAtomUri ''atom://foo'' \<and>
   testForIllegalUri ''/a'' = Inr () \<and>
   (\<forall>nnormalize. normalize nnormalize ''atom://foo'' = Inl IllegalAtomUri) \<and>
   (\<forall>ndirname nbasename nisAbsolute.
      split ndirname nbasename nisAbsolute ''atom://foo'' = Some (Inl IllegalAtomUri)) \<and>
   (\<forall>nparse. parsePath nparse ''atom://foo'' = Inl IllegalAtomUri) \<and>
   (\<forall>ndirname. trimTrailingSeparator ndirname ''atom://foo'' = Inl IllegalAtomUri) \<and>
   (\<forall>hostFormatters.
      nuclideUriToDisplayString hostFormatters ''atom://foo'' = Inl IllegalAtomUri) \<and>
   contains ''atom://foo'' ''/a'' = Inl IllegalAtomUri \<and>
   contains ''/a'' ''atom://foo'' = Inl IllegalAtomUri \<and>
   collapse [''/a'', ''atom://foo''] = Inl IllegalAtomUri"
proof -
  have a: "isAtomUri ''atom://foo''" by code_simp
  have t: "testForIllegalUri ''/a'' = Inr ()" by code_simp
  have m: "''atom://foo'' \<in> set [''/a'', ''atom://foo'']" by simp
  have c: "collapse [''/a'', ''atom://foo''] \<noteq> Inl IllegalArchiveSuffix" by code_simp
  have "collapse [''/a'', ''atom://foo''] = Inl IllegalAtomUri"
    using atom_uri_rejected[where uris = "[''/a'', ''atom://foo'']", OF a] m c
    by blast
  then show ?thesis using a t atom_uri_rejected[OF a] by simp
qed

text \<open>
  Some public operations return a value on an editor-internal URI.  \<open>splitPathList\<close>,
  \<open>joinPathList\<close> and \<open>pathSeparatorFor\<close> make no test for illegal URIs;
  \<open>isInArchive\<close> answers \<open>False\<close> for an editor-internal URI by an explicit test, and
  \<open>hasKnownArchiveExtension\<close> looks at the end of the string only; \<open>relative\<close> tests its
  first argument and not its second, so with a local first argument it hands the URI to the
  native function and returns what that function returns.
\<close>

theorem atom_uri_counterexample:
  "isAtomUri ''atom://foo'' \<and>
   splitPathList ''atom://foo'' = Inr [''atom'', ''//foo''] \<and>
   joinPathList [''atom://foo''] = Inr ''atom://foo'' \<and>
   pathSeparatorFor ''atom://foo'' = Inr ''/'' \<and>
   isInArchive ''atom://foo'' = False \<and>
   hasKnownArchiveExtension ''atom://foo'' = False \<and>
   (\<forall>nrelative. relative nrelative ''/a'' ''atom://foo'' =
      Inr (archiveDecode Posix (nrelative Posix ''/a'' ''atom://foo'')))"
proof -
  have 1: "isAtomUri ''atom://foo''" by code_simp
  have 2: "splitPathList ''atom://foo'' = Inr [''atom'', ''//foo'']" by code_simp
  have 3: "joinPathList [''atom://foo''] = Inr ''atom://foo''" by code_simp
  have 4: "pathSeparatorFor ''atom://foo'' = Inr ''/''" by code_simp
  have 5: "isInArchive ''atom://foo'' = False" by code_simp
  have 6: "hasKnownArchiveExtension ''atom://foo'' = False" by code_simp
  have t: "testForIllegalUri ''/a'' = Inr ()" by code_simp
  have m: "pathModuleFor ''/a'' = Inr Posix" by code_simp
  have r: "\<not> isRemote ''/a''" "\<not> isRemote ''atom://foo''" by code_simp+
  have e: "archiveEncode Posix ''/a'' = ''/a''"
    "archiveEncode Posix ''atom://foo'' = ''atom://foo''" by code_simp+
  have mt: "matchTrailingArchive ''/a'' ''atom://foo'' = ''/a''"
    "matchTrailingArchive ''atom://foo'' ''/a'' = ''atom://foo''" by code_simp+
  have 7: "relative nrelative ''/a'' ''atom://foo'' =
      Inr (archiveDecode Posix (nrelative Posix ''/a'' ''atom://foo''))" for nrelative
    unfolding relative_def by (simp only: t m r e mt andThen_simps Let_def if_False simp_thms)
  from 1 2 3 4 5 6 7 show ?thesis by blast
qed

end
